theory Spec2Isabelle
  imports Main "HOL-Library.Word" "HOL-Library.Sublist" "HOL-Library.AList" "HOL-Library.DAList"
begin

chapter \<open>The email directory: a model of the command-line tool\<close>

text \<open>
  The development follows the most evolved iteration of the tool (the file that declares
  \<^verbatim>\<open>type Status = 'dirty' | 'broken' | 'clean'\<close>): the address normalizer
  \<^verbatim>\<open>filterEmail\<close>, the class \<^verbatim>\<open>EmailDB\<close> and the pagination helper \<^verbatim>\<open>pageAll\<close>;
  and, next to it, \<^verbatim>\<open>insert\<close> as the first version of the tool has it.
  The first part holds the definitions, the second part the properties.
\<close>

section \<open>Strings\<close>

text \<open>
  A JavaScript string is a sequence of 16-bit code units. String literals of the source
  are written \<open>js ''...''\<close>.
\<close>

type_synonym jschar = "16 word"
type_synonym jsstring = "jschar list"

definition ch :: "char \<Rightarrow> jschar" where
  "ch c = of_nat (of_char c)"

definition js :: "string \<Rightarrow> jsstring" where
  "js s = map ch s"

text \<open>
  Truthiness of an optional string (\<open>None\<close> is \<^verbatim>\<open>undefined\<close> or \<^verbatim>\<open>null\<close>): the
  empty string is falsy, as \<^verbatim>\<open>undefined\<close> is.
\<close>

definition truthy :: "jsstring option \<Rightarrow> bool" where
  "truthy v = (case v of None \<Rightarrow> False | Some s \<Rightarrow> s \<noteq> [])"

section \<open>Regular expressions\<close>

text \<open>
  The fragment of the regular expression language that \<^verbatim>\<open>EmailRegex\<close> uses: single
  characters and character classes (\<open>Atom\<close>), concatenation, alternation, and the
  greedy quantifiers (\<open>Rep lo hi\<close> is \<^verbatim>\<open>{lo,hi}\<close>, with \<open>hi = None\<close> for no upper
  bound, so \<^verbatim>\<open>*\<close> is \<open>Rep 0 None\<close> and \<^verbatim>\<open>+\<close> is \<open>Rep 1 None\<close>). Capture groups do not
  change what is matched, since the expression has no back-reference.
\<close>

datatype 'c regex =
    Atom "'c \<Rightarrow> bool"
  | Cat "'c regex" "'c regex"
  | Alt "'c regex" "'c regex"
  | Rep nat "nat option" "'c regex"

text \<open>
  A matcher maps the input that is left to the list of inputs that can be left after a
  match, in the order in which a backtracking engine tries them. \<open>rep\<close> is the
  specification's RepeatMatcher for a greedy quantifier: with \<open>hi\<close> exhausted it stops;
  otherwise it first tries one more iteration of \<open>m\<close> (an iteration that consumes nothing
  is refused once the minimum is reached) and only then, if the minimum is reached, stops.
\<close>

function rep :: "('c list \<Rightarrow> 'c list list) \<Rightarrow> nat \<Rightarrow> nat option \<Rightarrow> 'c list \<Rightarrow> 'c list list" where
  "rep m lo hi x =
     (if hi = Some 0 then [x]
      else
        let z = concat (map (\<lambda>y. if lo = 0 \<and> length x \<le> length y then []
                                   else rep m (lo - 1) (map_option (\<lambda>h. h - 1) hi) y) (m x))
        in if lo \<noteq> 0 then z else z @ [x])"
  by pat_completeness auto
termination
  by (relation "measures [\<lambda>(m, lo, hi, x). lo, \<lambda>(m, lo, hi, x). length x]") auto

declare rep.simps [simp del]

primrec matcher :: "'c regex \<Rightarrow> 'c list \<Rightarrow> 'c list list" where
  "matcher (Atom p) = (\<lambda>x. case x of [] \<Rightarrow> [] | c # y \<Rightarrow> if p c then [y] else [])"
| "matcher (Cat a b) = (\<lambda>x. concat (map (matcher b) (matcher a x)))"
| "matcher (Alt a b) = (\<lambda>x. matcher a x @ matcher b x)"
| "matcher (Rep lo hi a) = rep (matcher a) lo hi"

text \<open>
  \<^verbatim>\<open>line.match(re)\<close> for an expression without the \<^verbatim>\<open>g\<close> flag: the match is tried at
  every start index from the left, the end of the input included; the result is the text
  of the first match (\<^verbatim>\<open>match[0]\<close>), or \<open>None\<close> for \<^verbatim>\<open>null\<close>.
\<close>

fun exec :: "'c regex \<Rightarrow> 'c list \<Rightarrow> 'c list option" where
  "exec r [] = (case matcher r [] of [] \<Rightarrow> None | y # _ \<Rightarrow> Some [])"
| "exec r (c # s) =
     (case matcher r (c # s) of
        [] \<Rightarrow> exec r s
      | y # _ \<Rightarrow> Some (take (length (c # s) - length y) (c # s)))"

subsection \<open>The character classes of the email expression\<close>

text \<open>\<^verbatim>\<open>\s\<close>: the white space and line terminator code units.\<close>

definition is_space :: "jschar \<Rightarrow> bool" where
  "is_space c \<longleftrightarrow>
     c \<in> {0x9, 0xA, 0xB, 0xC, 0xD, 0x20, 0xA0, 0x1680, 0x2028, 0x2029, 0x202F, 0x205F, 0x3000, 0xFEFF}
     \<or> (0x2000 \<le> c \<and> c \<le> 0x200A)"

text \<open>\<^verbatim>\<open>[^<>()\[\]\\.,;:\s@"]\<close>; \<open>0x5C\<close> is the backslash and \<open>0x22\<close> the double quote.\<close>

definition atext :: "jschar \<Rightarrow> bool" where
  "atext c \<longleftrightarrow> c \<notin> set (js ''<>()[]'') \<and> c \<noteq> 0x5C \<and> c \<notin> set (js ''.,;:'') \<and> \<not> is_space c
     \<and> c \<noteq> ch CHR ''@'' \<and> c \<noteq> 0x22"

text \<open>\<^verbatim>\<open>.\<close> without the \<^verbatim>\<open>s\<close> flag: any code unit but a line terminator.\<close>

definition anychar :: "jschar \<Rightarrow> bool" where
  "anychar c \<longleftrightarrow> c \<notin> {0xA, 0xD, 0x2028, 0x2029}"

definition digit :: "jschar \<Rightarrow> bool" where
  "digit c \<longleftrightarrow> ch CHR ''0'' \<le> c \<and> c \<le> ch CHR ''9''"

definition alpha :: "jschar \<Rightarrow> bool" where
  "alpha c \<longleftrightarrow> (ch CHR ''a'' \<le> c \<and> c \<le> ch CHR ''z'') \<or> (ch CHR ''A'' \<le> c \<and> c \<le> ch CHR ''Z'')"

text \<open>\<^verbatim>\<open>[a-zA-Z\-0-9]\<close>\<close>

definition label_char :: "jschar \<Rightarrow> bool" where
  "label_char c \<longleftrightarrow> alpha c \<or> c = ch CHR ''-'' \<or> digit c"

definition lit :: "char \<Rightarrow> jschar regex" where
  "lit a = Atom (\<lambda>c. c = ch a)"

definition dquote :: "jschar regex" where
  "dquote = Atom (\<lambda>c. c = 0x22)"

definition rplus :: "'c regex \<Rightarrow> 'c regex" where
  "rplus r = Rep 1 None r"

definition rstar :: "'c regex \<Rightarrow> 'c regex" where
  "rstar r = Rep 0 None r"

text \<open>
  \<^verbatim>\<open>(([^<>()\[\]\\.,;:\s@"]+(\.[^<>()\[\]\\.,;:\s@"]+)*)|(".+"))\<close>
\<close>

definition local_part :: "jschar regex" where
  "local_part =
     Alt (Cat (rplus (Atom atext)) (rstar (Cat (lit CHR ''.'') (rplus (Atom atext)))))
         (Cat dquote (Cat (rplus (Atom anychar)) dquote))"

text \<open>
  \<^verbatim>\<open>(\[[0-9]{1,3}\.[0-9]{1,3}\.[0-9]{1,3}\.[0-9]{1,3}])\<close>
\<close>

definition octet :: "jschar regex" where
  "octet = Rep 1 (Some 3) (Atom digit)"

definition ip_literal :: "jschar regex" where
  "ip_literal =
     Cat (lit CHR ''['') (Cat octet (Cat (lit CHR ''.'') (Cat octet (Cat (lit CHR ''.'')
       (Cat octet (Cat (lit CHR ''.'') (Cat octet (lit CHR '']''))))))))"

text \<open>
  \<^verbatim>\<open>(([a-zA-Z\-0-9]+\.)+[a-zA-Z]{2,})\<close>
\<close>

definition host_name :: "jschar regex" where
  "host_name = Cat (rplus (Cat (rplus (Atom label_char)) (lit CHR ''.''))) (Rep 2 None (Atom alpha))"

definition EmailRegex :: "jschar regex" where
  "EmailRegex = Cat local_part (Cat (lit CHR ''@'') (Alt ip_literal host_name))"

section \<open>The address normalizer\<close>

type_synonym Email = jsstring
type_synonym Tag = jsstring
type_synonym Locale = jsstring

definition filterEmail :: "jsstring \<Rightarrow> Email option" where
  "filterEmail line = exec EmailRegex line"

text \<open>
  \<^verbatim>\<open>str.split('\n')\<close>: the pieces between the line feeds; there is always at least one.
\<close>

fun split_lines :: "jsstring \<Rightarrow> jsstring list" where
  "split_lines [] = [[]]"
| "split_lines (c # s) =
     (if c = 0xA then [] # split_lines s
      else (case split_lines s of l # ls \<Rightarrow> (c # l) # ls | [] \<Rightarrow> [[c]]))"

section \<open>Sets of tags\<close>

text \<open>
  A JavaScript \<^verbatim>\<open>Set\<close> holds each value once, in insertion order. \<open>uniq\<close> keeps the first
  occurrence of each value, as the \<^verbatim>\<open>Set\<close> constructor and lodash do.
\<close>

definition uniq :: "'a list \<Rightarrow> 'a list" where
  "uniq xs = rev (remdups (rev xs))"

typedef 'a jsset = "{xs :: 'a list. distinct xs}"
  morphisms Array_from Abs_jsset
  by (rule exI [of _ "[]"]) simp

setup_lifting type_definition_jsset

lift_definition new_Set :: "'a list \<Rightarrow> 'a jsset" is uniq
  by (simp add: uniq_def)

lift_definition has :: "'a jsset \<Rightarrow> 'a \<Rightarrow> bool" is "\<lambda>xs x. x \<in> set xs" .

lift_definition add :: "'a \<Rightarrow> 'a jsset \<Rightarrow> 'a jsset" is "\<lambda>x xs. if x \<in> set xs then xs else xs @ [x]"
  by simp

lift_definition size_Set :: "'a jsset \<Rightarrow> nat" is length .

instantiation jsset :: (equal) equal
begin

definition equal_jsset :: "'a jsset \<Rightarrow> 'a jsset \<Rightarrow> bool" where
  "equal_jsset a b \<longleftrightarrow> Array_from a = Array_from b"

instance
  by standard (simp add: equal_jsset_def Array_from_inject)

end

text \<open>lodash's \<^verbatim>\<open>_.intersection\<close> of two arrays: the unique values of the first that the second includes.\<close>

definition intersection :: "'a list \<Rightarrow> 'a list \<Rightarrow> 'a list" where
  "intersection xs ys = uniq (filter (\<lambda>x. x \<in> set ys) xs)"

section \<open>The directory\<close>

datatype Status = Dirty | Broken | Clean

text \<open>
  \<^verbatim>\<open>type Record = { tags: Tags, locale?: Locale, status: Status, lastDelivered?: string }\<close>.
  An optional field that is absent is \<open>None\<close>. The status is optional too: \<^verbatim>\<open>load\<close> leaves
  it absent on a persisted record that has neither a status nor a legacy flag.
\<close>

record Record =
  rec_tags :: "Tag jsset"
  rec_locale :: "Locale option"
  rec_status :: "Status option"
  rec_lastDelivered :: "jsstring option"

text \<open>
  \<^verbatim>\<open>type DB = { [ Email ]: Record }\<close>: an object used as a dictionary, that is a list of
  entries with distinct keys, a new key going to the end. \<^verbatim>\<open>for(const email in this.db)\<close>
  runs over the keys the object has when the loop starts; a key deleted before its turn is
  skipped and a key added during the loop is not visited. Reading \<^verbatim>\<open>this.db[email]\<close>
  under a key of the object, or under an address, is the lookup of an own property: an
  address never names a member of \<^verbatim>\<open>Object.prototype\<close>. \<^verbatim>\<open>setLastDelivered\<close> reads under
  any string of its caller's, and there the inherited members are modelled too.
\<close>

type_synonym DB = "(Email, Record) alist"

definition keys :: "('k, 'v) alist \<Rightarrow> 'k list" where
  "keys db = map fst (DAList.impl_of db)"

definition guessEmailLocale :: "Email \<Rightarrow> Locale" where
  "guessEmailLocale email = (if suffix (js ''.ru'') email then js ''ru'' else js ''en'')"

subsection \<open>lookup\<close>

text \<open>
  The argument object of \<^verbatim>\<open>lookup\<close>. \<open>coldDays\<close> is a whole number of days. The days
  between now and a stored timestamp come from the moment library and the clock; they are
  the parameter \<open>days\<close> below, \<open>None\<close> when moment gives \<^verbatim>\<open>NaN\<close>.
\<close>

record Query =
  q_tags :: "Tag jsset"
  q_locale :: "Locale option"
  q_statusOnly :: "Status option"
  q_coldDays :: "int option"

record Entry =
  e_tags :: "Tag jsset"
  e_locale :: Locale

text \<open>Each of the four tests that end in \<^verbatim>\<open>continue\<close>, in the order of the source.\<close>

definition status_skip :: "Query \<Rightarrow> Record \<Rightarrow> bool" where
  "status_skip q rec \<longleftrightarrow>
     (q_statusOnly q \<noteq> None \<and> rec_status rec \<noteq> q_statusOnly q)
     \<or> ((q_statusOnly q = None \<or> q_statusOnly q \<noteq> Some Broken) \<and> rec_status rec = Some Broken)"

definition cold_skip :: "(jsstring \<Rightarrow> int option) \<Rightarrow> Query \<Rightarrow> Record \<Rightarrow> bool" where
  "cold_skip days q rec \<longleftrightarrow>
     (case q_coldDays q of
        None \<Rightarrow> False
      | Some coldDays \<Rightarrow>
          coldDays \<noteq> 0 \<and> truthy (rec_lastDelivered rec) \<and>
          (case days (the (rec_lastDelivered rec)) of None \<Rightarrow> False | Some d \<Rightarrow> d < coldDays))"

definition tags_skip :: "Query \<Rightarrow> Record \<Rightarrow> bool" where
  "tags_skip q rec \<longleftrightarrow>
     length (intersection (Array_from (rec_tags rec)) (Array_from (q_tags q))) < size_Set (q_tags q)"

definition calculatedLocale :: "Email \<Rightarrow> Record \<Rightarrow> Locale" where
  "calculatedLocale email rec =
     (if truthy (rec_locale rec) then the (rec_locale rec) else guessEmailLocale email)"

definition locale_skip :: "Query \<Rightarrow> Email \<Rightarrow> Record \<Rightarrow> bool" where
  "locale_skip q email rec \<longleftrightarrow> q_locale q \<noteq> None \<and> Some (calculatedLocale email rec) \<noteq> q_locale q"

definition lookup_step ::
  "(jsstring \<Rightarrow> int option) \<Rightarrow> Query \<Rightarrow> DB \<Rightarrow> Email \<Rightarrow> (Email, Entry) alist \<Rightarrow> (Email, Entry) alist" where
  "lookup_step days q db email result =
     (case DAList.lookup db email of
        None \<Rightarrow> result
      | Some rec \<Rightarrow>
          if status_skip q rec then result
          else if cold_skip days q rec then result
          else if tags_skip q rec then result
          else if locale_skip q email rec then result
          else DAList.update email
                 \<lparr>e_tags = new_Set (Array_from (rec_tags rec)), e_locale = calculatedLocale email rec\<rparr>
                 result)"

definition lookup :: "(jsstring \<Rightarrow> int option) \<Rightarrow> Query \<Rightarrow> DB \<Rightarrow> (Email, Entry) alist" where
  "lookup days q db = fold (lookup_step days q db) (keys db) DAList.empty"

subsection \<open>insert\<close>

record Counters =
  inserted :: nat
  updated :: nat

text \<open>The record that \<^verbatim>\<open>insert\<close> creates for an address it has not seen.\<close>

definition new_record :: Record where
  "new_record = \<lparr>rec_tags = new_Set [], rec_locale = None, rec_status = Some Dirty, rec_lastDelivered = None\<rparr>"

text \<open>
  The inner loop over the supplied tags: the set of the record after it, and \<^verbatim>\<open>addedTags\<close>.
\<close>

definition add_tags :: "Tag list \<Rightarrow> Tag jsset \<Rightarrow> Tag jsset \<times> bool" where
  "add_tags tags s =
     fold (\<lambda>tag (s, addedTags). if \<not> has s tag then (add tag s, True) else (s, addedTags)) tags (s, False)"

text \<open>
  The body of the loop for a line in which \<^verbatim>\<open>filterEmail\<close> has found \<open>email\<close>.
\<close>

definition insert_email :: "Tag jsset \<Rightarrow> Locale option \<Rightarrow> Email \<Rightarrow> DB \<times> Counters \<Rightarrow> DB \<times> Counters" where
  "insert_email tags locale email st =
     (case st of (db, result) \<Rightarrow>
        let (res, result1) =
              (case DAList.lookup db email of
                 None \<Rightarrow> (new_record, result\<lparr>inserted := inserted result + 1\<rparr>)
               | Some rec \<Rightarrow> (rec, result));
            (tags1, addedTags) = add_tags (Array_from tags) (rec_tags res);
            tags2 = new_Set (Array_from tags1 @ Array_from tags);
            result2 =
              (if addedTags \<or> (truthy locale \<and> locale \<noteq> rec_locale res)
               then result1\<lparr>updated := updated result1 + 1\<rparr> else result1);
            res2 = res\<lparr>rec_tags := tags2, rec_locale := (if truthy locale then locale else rec_locale res)\<rparr>
        in (DAList.update email res2 db, result2))"

definition insert_line :: "Tag jsset \<Rightarrow> Locale option \<Rightarrow> jsstring \<Rightarrow> DB \<times> Counters \<Rightarrow> DB \<times> Counters" where
  "insert_line tags locale line st =
     (let email = filterEmail line in
      if \<not> truthy email then st else insert_email tags locale (the email) st)"

text \<open>
  The errors: a file that cannot be read, a \<^verbatim>\<open>TypeError\<close> of the language, and a
  request to the mail provider that fails.
\<close>

datatype js_error = IOError | TypeError | RequestError

text \<open>
  \<^verbatim>\<open>insert\<close> reads the file first; \<open>content = None\<close> is a read that throws, and then
  \<^verbatim>\<open>insert\<close> throws before it touches the directory.
\<close>

definition insert :: "jsstring option \<Rightarrow> Tag jsset \<Rightarrow> Locale option \<Rightarrow> DB \<Rightarrow> js_error + DB \<times> Counters" where
  "insert content tags locale db =
     (case content of
        None \<Rightarrow> Inl IOError
      | Some text \<Rightarrow>
          Inr (fold (insert_line tags locale) (split_lines text) (db, \<lparr>inserted = 0, updated = 0\<rparr>)))"

subsection \<open>insert, in the first version of the tool\<close>

text \<open>
  The source holds earlier versions of the tool. In the first one \<^verbatim>\<open>insert\<close> takes the
  file and the tags only, creates a record with an empty tag set and no other field, and
  counts in an \<^verbatim>\<open>if\<close> with an \<^verbatim>\<open>else\<close>: a line whose address is new increments
  \<^verbatim>\<open>inserted\<close>, any other line with an address increments \<^verbatim>\<open>updated\<close>. The tags are
  merged by \<^verbatim>\<open>new Set([ ...res.tags, ...tags ])\<close>, and the normalizer is the same.
\<close>

definition insert_v0_email :: "Tag jsset \<Rightarrow> Email \<Rightarrow> DB \<times> Counters \<Rightarrow> DB \<times> Counters" where
  "insert_v0_email tags email st =
     (case st of (db, result) \<Rightarrow>
        let (res, result1) =
              (case DAList.lookup db email of
                 None \<Rightarrow> (\<lparr>rec_tags = new_Set [], rec_locale = None, rec_status = None, rec_lastDelivered = None\<rparr>,
                          result\<lparr>inserted := inserted result + 1\<rparr>)
               | Some rec \<Rightarrow> (rec, result\<lparr>updated := updated result + 1\<rparr>))
        in (DAList.update email (res\<lparr>rec_tags := new_Set (Array_from (rec_tags res) @ Array_from tags)\<rparr>) db, result1))"

definition insert_v0_line :: "Tag jsset \<Rightarrow> jsstring \<Rightarrow> DB \<times> Counters \<Rightarrow> DB \<times> Counters" where
  "insert_v0_line tags line st =
     (let email = filterEmail line in
      if \<not> truthy email then st else insert_v0_email tags (the email) st)"

definition insert_v0 :: "jsstring option \<Rightarrow> Tag jsset \<Rightarrow> DB \<Rightarrow> js_error + DB \<times> Counters" where
  "insert_v0 content tags db =
     (case content of
        None \<Rightarrow> Inl IOError
      | Some text \<Rightarrow> Inr (fold (insert_v0_line tags) (split_lines text) (db, \<lparr>inserted = 0, updated = 0\<rparr>)))"

subsection \<open>cleanup\<close>

record CleanupResult =
  deleted :: nat
  fixed :: nat

definition cleanup_step :: "Email \<Rightarrow> DB \<times> CleanupResult \<Rightarrow> DB \<times> CleanupResult" where
  "cleanup_step email st =
     (case st of (db, result) \<Rightarrow>
        (case DAList.lookup db email of
           None \<Rightarrow> (db, result)
         | Some rec \<Rightarrow>
             let filtered = filterEmail email in
             if \<not> truthy filtered then (DAList.delete email db, result\<lparr>deleted := deleted result + 1\<rparr>)
             else if the filtered \<noteq> email
               then (DAList.delete email (DAList.update (the filtered) rec db),
                     result\<lparr>fixed := fixed result + 1\<rparr>)
             else (db, result)))"

definition cleanup :: "DB \<Rightarrow> DB \<times> CleanupResult" where
  "cleanup db = fold cleanup_step (keys db) (db, \<lparr>deleted = 0, fixed = 0\<rparr>)"

subsection \<open>setStatus and setLastDelivered\<close>

definition setStatus_step :: "Email list \<Rightarrow> Status \<Rightarrow> Email \<Rightarrow> DB \<times> nat \<Rightarrow> DB \<times> nat" where
  "setStatus_step emails status email st =
     (case st of (db, res) \<Rightarrow>
        (case DAList.lookup db email of
           None \<Rightarrow> (db, res)
         | Some rec \<Rightarrow>
             if email \<in> set emails
             then (DAList.update email (rec\<lparr>rec_status := Some status\<rparr>) db,
                   if rec_status rec \<noteq> Some status then res + 1 else res)
             else (db, res)))"

definition setStatus :: "Email list \<Rightarrow> Status \<Rightarrow> DB \<Rightarrow> DB \<times> nat" where
  "setStatus emails status db = fold (setStatus_step emails status) (keys db) (db, 0)"

text \<open>
  \<^verbatim>\<open>setLastDelivered\<close> reads \<^verbatim>\<open>this.db[email]\<close> for the strings of a list that its caller
  supplies. The read finds an own property of the directory, and otherwise a member that
  the directory inherits from \<^verbatim>\<open>Object.prototype\<close>: one of its functions (\<open>Fn\<close>, by
  name), \<^verbatim>\<open>Object.prototype\<close> itself under the name \<^verbatim>\<open>__proto__\<close> (\<open>Proto\<close>), or a
  string (\<open>Prim\<close>) once a property \<^verbatim>\<open>lastDelivered\<close> has been written there. A function
  and \<^verbatim>\<open>Object.prototype\<close> are objects: they pass the test \<^verbatim>\<open>if(!rec)\<close> and the
  assignment \<^verbatim>\<open>rec.lastDelivered = ...\<close> writes the property on them.
\<close>

datatype inherited = Fn jsstring | Proto | Prim jsstring

text \<open>
  What such writes leave outside the directory: the property \<^verbatim>\<open>lastDelivered\<close> of the
  functions of \<^verbatim>\<open>Object.prototype\<close> that have one, and that of \<^verbatim>\<open>Object.prototype\<close>.
\<close>

record Realm =
  fn_lastDelivered :: "(jsstring, jsstring) alist"
  proto_lastDelivered :: "jsstring option"

text \<open>The names of the functions that \<^verbatim>\<open>Object.prototype\<close> has by the language standard.\<close>

definition object_prototype_functions :: "jsstring list" where
  "object_prototype_functions =
     map js [''constructor'', ''__defineGetter__'', ''__defineSetter__'', ''hasOwnProperty'',
             ''__lookupGetter__'', ''__lookupSetter__'', ''isPrototypeOf'', ''propertyIsEnumerable'',
             ''toString'', ''valueOf'', ''toLocaleString'']"

text \<open>The member that an object without an own property \<open>name\<close> inherits, if any.\<close>

definition inherited :: "Realm \<Rightarrow> jsstring \<Rightarrow> inherited option" where
  "inherited realm name =
     (if name \<in> set object_prototype_functions then Some (Fn name)
      else if name = js ''__proto__'' then Some Proto
      else if name = js ''lastDelivered'' then map_option Prim (proto_lastDelivered realm)
      else None)"

text \<open>
  The body of the loop. \<open>stamp\<close> is \<^verbatim>\<open>lastDelivered.format()\<close>, the serialized form of the
  moment passed in. An inherited string that is empty is falsy and skipped; on one that is
  not, the count is incremented and then the assignment to a property of a string throws
  in strict code and does nothing otherwise (\<open>strict\<close> says which). A throw ends the call.
\<close>

definition setLastDelivered_step ::
  "bool \<Rightarrow> jsstring \<Rightarrow> Email \<Rightarrow> js_error + (DB \<times> Realm) \<times> nat \<Rightarrow> js_error + (DB \<times> Realm) \<times> nat" where
  "setLastDelivered_step strict stamp email st =
     (case st of
        Inl err \<Rightarrow> Inl err
      | Inr ((db, realm), res) \<Rightarrow>
          (case DAList.lookup db email of
             Some rec \<Rightarrow> Inr ((DAList.update email (rec\<lparr>rec_lastDelivered := Some stamp\<rparr>) db, realm), res + 1)
           | None \<Rightarrow>
               (case inherited realm email of
                  None \<Rightarrow> Inr ((db, realm), res)
                | Some (Fn name) \<Rightarrow>
                    Inr ((db, realm\<lparr>fn_lastDelivered := DAList.update name stamp (fn_lastDelivered realm)\<rparr>), res + 1)
                | Some Proto \<Rightarrow> Inr ((db, realm\<lparr>proto_lastDelivered := Some stamp\<rparr>), res + 1)
                | Some (Prim s) \<Rightarrow>
                    if s = [] then Inr ((db, realm), res)
                    else if strict then Inl TypeError
                    else Inr ((db, realm), res + 1))))"

definition setLastDelivered ::
  "bool \<Rightarrow> Email list \<Rightarrow> jsstring \<Rightarrow> DB \<times> Realm \<Rightarrow> js_error + (DB \<times> Realm) \<times> nat" where
  "setLastDelivered strict emails stamp st = fold (setLastDelivered_step strict stamp) emails (Inr (st, 0))"

section \<open>pageAll\<close>

text \<open>
  A page of the provider's listing: \<^verbatim>\<open>response.items\<close> and \<^verbatim>\<open>response.paging.next\<close>, \<open>None\<close>
  when the response has no such string. A request is a function of the state of the world
  outside the program (the provider, the network): it returns a page or throws, and leaves
  a new state. \<^verbatim>\<open>mg.get\<close> is the parameter \<open>get\<close>, and \<^verbatim>\<open>fn\<close> takes the limit.
\<close>

record 'a Response =
  items :: "'a list"
  paging_next :: "jsstring option"

type_synonym ('a, 'w) request = "'w \<Rightarrow> (js_error + 'a Response) \<times> 'w"

definition api_prefix :: jsstring where
  "api_prefix = js ''https://api.mailgun.net/v3''"

text \<open>
  \<^verbatim>\<open>s.split(sep)[1]\<close> for a non-empty separator: the text between the first occurrence of
  \<open>sep\<close> and the next one (or the end), \<^verbatim>\<open>undefined\<close> when \<open>sep\<close> does not occur.
\<close>

fun after_first :: "'c list \<Rightarrow> 'c list \<Rightarrow> 'c list option" where
  "after_first sep [] = (if sep = [] then Some [] else None)"
| "after_first sep (c # s) =
     (if prefix sep (c # s) then Some (drop (length sep) (c # s)) else after_first sep s)"

fun before_first :: "'c list \<Rightarrow> 'c list \<Rightarrow> 'c list" where
  "before_first sep [] = []"
| "before_first sep (c # s) = (if prefix sep (c # s) then [] else c # before_first sep s)"

definition split_1 :: "'c list \<Rightarrow> 'c list \<Rightarrow> 'c list option" where
  "split_1 sep s = map_option (before_first sep) (after_first sep s)"

text \<open>The request of one turn of the loop: \<^verbatim>\<open>mg.get(url)\<close> when \<^verbatim>\<open>url\<close> is truthy, else \<^verbatim>\<open>fn({ limit })\<close>.\<close>

definition fetch ::
  "(jsstring \<Rightarrow> ('a, 'w) request) \<Rightarrow> (nat \<Rightarrow> ('a, 'w) request) \<Rightarrow> nat \<Rightarrow> jsstring option \<Rightarrow> ('a, 'w) request" where
  "fetch get fn limit url w = (if truthy url then get (the url) w else fn limit w)"

text \<open>
  The \<^verbatim>\<open>while(true)\<close> loop; it may run forever, and then the value is \<open>None\<close>.
\<close>

partial_function (option) pageAll_loop ::
  "(jsstring \<Rightarrow> ('a, 'w) request) \<Rightarrow> (nat \<Rightarrow> ('a, 'w) request) \<Rightarrow> nat \<Rightarrow>
     'a list \<Rightarrow> jsstring option \<Rightarrow> 'w \<Rightarrow> ((js_error + 'a list) \<times> 'w) option" where
  "pageAll_loop get fn limit result url w =
     (case fetch get fn limit url w of
        (Inl err, w') \<Rightarrow> Some (Inl err, w')
      | (Inr response, w') \<Rightarrow>
          if length (items response) = 0 then Some (Inr result, w')
          else (case paging_next response of
                  None \<Rightarrow> Some (Inl TypeError, w')
                | Some next \<Rightarrow>
                    pageAll_loop get fn limit (result @ items response) (split_1 api_prefix next) w'))"

declare pageAll_loop.simps [code]

definition pageAll ::
  "(jsstring \<Rightarrow> ('a, 'w) request) \<Rightarrow> (nat \<Rightarrow> ('a, 'w) request) \<Rightarrow> nat \<Rightarrow> 'w \<Rightarrow> ((js_error + 'a list) \<times> 'w) option" where
  "pageAll get fn limit w = pageAll_loop get fn limit [] None w"

text \<open>
  The pages in the order in which the loop requests them: \<open>page_at \<dots> n\<close> is the page of
  turn \<open>n\<close>, and \<open>None\<close> when the loop has ended before that turn or the request throws.
\<close>

fun page_at ::
  "(jsstring \<Rightarrow> ('a, 'w) request) \<Rightarrow> (nat \<Rightarrow> ('a, 'w) request) \<Rightarrow> nat \<Rightarrow> nat \<Rightarrow> jsstring option \<Rightarrow> 'w \<Rightarrow> 'a Response option" where
  "page_at get fn limit 0 url w =
     (case fetch get fn limit url w of (Inl err, w') \<Rightarrow> None | (Inr response, w') \<Rightarrow> Some response)"
| "page_at get fn limit (Suc n) url w =
     (case fetch get fn limit url w of
        (Inl err, w') \<Rightarrow> None
      | (Inr response, w') \<Rightarrow>
          if length (items response) = 0 then None
          else (case paging_next response of
                  None \<Rightarrow> None
                | Some next \<Rightarrow> page_at get fn limit n (split_1 api_prefix next) w'))"

section \<open>load\<close>

text \<open>
  What \<^verbatim>\<open>JSON.parse\<close> returns: a number is modelled by an integer (\<^verbatim>\<open>load\<close> only asks
  whether it is zero), and an object by its members, with distinct keys.
\<close>

datatype json =
    JNull
  | JBool bool
  | JNum int
  | JStr jsstring
  | JArr "json list"
  | JObj "(jsstring \<times> json) list"

text \<open>
  \<^verbatim>\<open>JSON.parse(fs.readFileSync(DB_FILE, 'utf-8'))\<close>: the read throws, or the parse throws,
  or the parse returns a value.
\<close>

datatype persisted = ReadFails | ParseFails | Parses json

text \<open>
  How a step of \<^verbatim>\<open>load\<close> ends: it throws; or it completes with a value of the type the
  source declares (\<open>Typed\<close>); or it completes with a value outside that type (\<open>Untyped\<close>:
  a record that is an array, a tag that is a number), about which the operations, modelled
  on the type \<open>DB\<close>, say nothing.
\<close>

datatype 'a outcome = Throws js_error | Typed 'a | Untyped

text \<open>Truthiness of a member of a parsed object, \<open>None\<close> for a member that is absent.\<close>

fun json_truthy :: "json option \<Rightarrow> bool" where
  "json_truthy None = False"
| "json_truthy (Some JNull) = False"
| "json_truthy (Some (JBool b)) = b"
| "json_truthy (Some (JNum n)) = (n \<noteq> 0)"
| "json_truthy (Some (JStr s)) = (s \<noteq> [])"
| "json_truthy (Some (JArr xs)) = True"
| "json_truthy (Some (JObj ms)) = True"

text \<open>
  Iterating a string gives its code points: a surrogate pair is one element.
\<close>

definition high_surrogate :: "jschar \<Rightarrow> bool" where
  "high_surrogate c \<longleftrightarrow> 0xD800 \<le> c \<and> c \<le> 0xDBFF"

definition low_surrogate :: "jschar \<Rightarrow> bool" where
  "low_surrogate c \<longleftrightarrow> 0xDC00 \<le> c \<and> c \<le> 0xDFFF"

fun code_points :: "jsstring \<Rightarrow> jsstring list" where
  "code_points [] = []"
| "code_points [c] = [[c]]"
| "code_points (c # d # s) =
     (if high_surrogate c \<and> low_surrogate d then [c, d] # code_points s else [c] # code_points (d # s))"

fun the_JStr :: "json \<Rightarrow> jsstring option" where
  "the_JStr (JStr s) = Some s"
| "the_JStr v = None"

text \<open>
  \<^verbatim>\<open>new Set(rec.tags)\<close>: \<^verbatim>\<open>undefined\<close> and \<^verbatim>\<open>null\<close> give the empty set, a string and
  an array are iterated, and any other value is not iterable: a \<^verbatim>\<open>TypeError\<close>.
\<close>

fun tags_of :: "json option \<Rightarrow> Tag jsset outcome" where
  "tags_of None = Typed (new_Set [])"
| "tags_of (Some JNull) = Typed (new_Set [])"
| "tags_of (Some (JStr s)) = Typed (new_Set (code_points s))"
| "tags_of (Some (JArr xs)) =
     (if list_all (\<lambda>x. the_JStr x \<noteq> None) xs then Typed (new_Set (map (\<lambda>x. the (the_JStr x)) xs)) else Untyped)"
| "tags_of (Some (JBool b)) = Throws TypeError"
| "tags_of (Some (JNum n)) = Throws TypeError"
| "tags_of (Some (JObj ms)) = Throws TypeError"

text \<open>The optional members that stay as they are: typed when absent or of the declared type.\<close>

fun string_of :: "json option \<Rightarrow> jsstring option outcome" where
  "string_of None = Typed None"
| "string_of (Some (JStr s)) = Typed (Some s)"
| "string_of (Some v) = Untyped"

fun status_of :: "json option \<Rightarrow> Status option outcome" where
  "status_of None = Typed None"
| "status_of (Some (JStr s)) =
     (if s = js ''dirty'' then Typed (Some Dirty)
      else if s = js ''broken'' then Typed (Some Broken)
      else if s = js ''clean'' then Typed (Some Clean)
      else Untyped)"
| "status_of (Some v) = Untyped"

text \<open>
  The body of the loop for a record that is an object: the tags become a set, and a truthy
  legacy flag \<^verbatim>\<open>broken\<close> or \<^verbatim>\<open>clean\<close> overrides the status. The members
  \<^verbatim>\<open>clean\<close> and \<^verbatim>\<open>dirty\<close> are deleted then; a \<open>Record\<close> has no such field.
\<close>

definition load_object :: "(jsstring \<times> json) list \<Rightarrow> Record outcome" where
  "load_object ms =
     (case tags_of (map_of ms (js ''tags'')) of
        Throws e \<Rightarrow> Throws e
      | Untyped \<Rightarrow> Untyped
      | Typed tags \<Rightarrow>
          (case (string_of (map_of ms (js ''locale'')), status_of (map_of ms (js ''status'')),
                 string_of (map_of ms (js ''lastDelivered''))) of
             (Typed locale, Typed status, Typed lastDelivered) \<Rightarrow>
               Typed \<lparr>rec_tags = tags, rec_locale = locale,
                      rec_status =
                        (if json_truthy (map_of ms (js ''broken'')) then Some Broken
                         else if json_truthy (map_of ms (js ''clean'')) then Some Clean
                         else status),
                      rec_lastDelivered = lastDelivered\<rparr>
           | _ \<Rightarrow> Untyped))"

text \<open>
  The body of the loop for any value: reading \<^verbatim>\<open>rec.tags\<close> of \<^verbatim>\<open>null\<close> throws; on a
  boolean, a number or a string the read gives \<^verbatim>\<open>undefined\<close> and the assignment to
  \<^verbatim>\<open>rec.tags\<close> throws in strict code and does nothing otherwise (\<open>strict\<close> says which;
  a module is strict code).
\<close>

fun load_record :: "bool \<Rightarrow> json \<Rightarrow> Record outcome" where
  "load_record strict JNull = Throws TypeError"
| "load_record strict (JBool b) = (if strict then Throws TypeError else Untyped)"
| "load_record strict (JNum n) = (if strict then Throws TypeError else Untyped)"
| "load_record strict (JStr s) = (if strict then Throws TypeError else Untyped)"
| "load_record strict (JArr xs) = Untyped"
| "load_record strict (JObj ms) = load_object ms"

fun load_members :: "bool \<Rightarrow> (jsstring \<times> json) list \<Rightarrow> (Email \<times> Record) list outcome" where
  "load_members strict [] = Typed []"
| "load_members strict ((email, v) # kvs) =
     (case load_record strict v of
        Throws e \<Rightarrow> Throws e
      | r \<Rightarrow>
          (case load_members strict kvs of
             Throws e \<Rightarrow> Throws e
           | rs \<Rightarrow> (case (r, rs) of (Typed rec, Typed recs) \<Rightarrow> Typed ((email, rec) # recs) | _ \<Rightarrow> Untyped)))"

text \<open>The directory with the given records, in their order.\<close>

definition directory_of :: "(Email \<times> Record) list \<Rightarrow> DB" where
  "directory_of recs = fold (\<lambda>(email, rec). DAList.update email rec) recs DAList.empty"

definition as_untyped :: "'a outcome \<Rightarrow> DB outcome" where
  "as_untyped r = (case r of Throws e \<Rightarrow> Throws e | _ \<Rightarrow> Untyped)"

text \<open>
  \<^verbatim>\<open>load\<close>: the \<^verbatim>\<open>try\<close> block covers the read and the parse only. On an array the loop
  runs over the elements and on a string over its characters.
\<close>

definition load :: "bool \<Rightarrow> persisted \<Rightarrow> DB outcome" where
  "load strict p =
     (case p of
        ReadFails \<Rightarrow> Typed DAList.empty
      | ParseFails \<Rightarrow> Typed DAList.empty
      | Parses (JObj kvs) \<Rightarrow>
          (case load_members strict kvs of
             Throws e \<Rightarrow> Throws e
           | Untyped \<Rightarrow> Untyped
           | Typed recs \<Rightarrow> Typed (directory_of recs))
      | Parses (JArr xs) \<Rightarrow> as_untyped (load_members strict (map (\<lambda>v. ([], v)) xs))
      | Parses (JStr s) \<Rightarrow> as_untyped (load_members strict (map (\<lambda>c. ([], JStr [c])) s))
      | Parses v \<Rightarrow> Untyped)"

section \<open>lookup over a store of objects\<close>

text \<open>
  To tell an object from another with the same content, and to see every write, the
  directory, its records and their sets live in a store that \<^verbatim>\<open>lookup\<close> takes and returns.
  The directory maps an address to a reference to a record object; a record object holds a
  reference to its \<^verbatim>\<open>Set\<close> of tags and its other fields. \<open>fresh\<close> is the next unused
  reference, and \<^verbatim>\<open>new Set(...)\<close> takes it.
\<close>

type_synonym ref = nat

record StoredRecord =
  tags_ref :: ref
  stored_locale :: "Locale option"
  stored_status :: "Status option"
  stored_lastDelivered :: "jsstring option"

record Store =
  directory :: "(Email, ref) alist"
  record_at :: "ref \<Rightarrow> StoredRecord"
  set_at :: "ref \<Rightarrow> Tag jsset"
  fresh :: ref

definition alloc :: "Tag jsset \<Rightarrow> Store \<Rightarrow> ref \<times> Store" where
  "alloc s h = (fresh h, h\<lparr>set_at := (set_at h)(fresh h := s), fresh := Suc (fresh h)\<rparr>)"

text \<open>
  An entry of the result, \<^verbatim>\<open>{ tags: new Set(recTags), locale: calculatedLocale }\<close>: the
  reference to its set, and its locale.
\<close>

record StoredEntry =
  entry_ref :: ref
  entry_locale :: Locale

text \<open>What the fields of the record object under a reference read as.\<close>

definition deref :: "Store \<Rightarrow> ref \<Rightarrow> Record" where
  "deref h p =
     \<lparr>rec_tags = set_at h (tags_ref (record_at h p)), rec_locale = stored_locale (record_at h p),
      rec_status = stored_status (record_at h p), rec_lastDelivered = stored_lastDelivered (record_at h p)\<rparr>"

text \<open>The body of the loop of \<^verbatim>\<open>lookup\<close>, and \<^verbatim>\<open>lookup\<close>, with the store passed along.\<close>

definition lookup_store_step ::
  "(jsstring \<Rightarrow> int option) \<Rightarrow> Query \<Rightarrow> Email \<Rightarrow>
     (Email, StoredEntry) alist \<times> Store \<Rightarrow> (Email, StoredEntry) alist \<times> Store" where
  "lookup_store_step days q email st =
     (case st of (result, h) \<Rightarrow>
        (case DAList.lookup (directory h) email of
           None \<Rightarrow> (result, h)
         | Some p \<Rightarrow>
             let rec = deref h p in
             if status_skip q rec then (result, h)
             else if cold_skip days q rec then (result, h)
             else if tags_skip q rec then (result, h)
             else if locale_skip q email rec then (result, h)
             else
               let recTags = Array_from (rec_tags rec);
                   (s, h') = alloc (new_Set recTags) h
               in (DAList.update email \<lparr>entry_ref = s, entry_locale = calculatedLocale email rec\<rparr> result, h')))"

definition lookup_store ::
  "(jsstring \<Rightarrow> int option) \<Rightarrow> Query \<Rightarrow> Store \<Rightarrow> (Email, StoredEntry) alist \<times> Store" where
  "lookup_store days q h = fold (lookup_store_step days q) (keys (directory h)) (DAList.empty, h)"

section \<open>Notions used in the statements\<close>

text \<open>
  \<open>cut q ys\<close> keeps of the remainders \<open>ys\<close> those that end in \<open>q\<close>, without that \<open>q\<close>.
\<close>

definition cut :: "'c list \<Rightarrow> 'c list list \<Rightarrow> 'c list list" where
  "cut q ys = map (\<lambda>y. take (length y - length q) y) (filter (\<lambda>y. length q \<le> length y) ys)"

text \<open>The addresses that the lines of an import file hold, in the order of the lines.\<close>

definition addresses :: "jsstring list \<Rightarrow> Email list" where
  "addresses lines = map the (filter truthy (map filterEmail lines))"

text \<open>The record \<^verbatim>\<open>insert\<close> starts from: the stored one, or a new one.\<close>

definition start_record :: "DB \<Rightarrow> Email \<Rightarrow> Record" where
  "start_record db email = (case DAList.lookup db email of None \<Rightarrow> new_record | Some rec \<Rightarrow> rec)"

text \<open>The tag set of a record after the merge of the supplied tags.\<close>

definition merged :: "Tag jsset \<Rightarrow> Tag jsset \<Rightarrow> Tag jsset" where
  "merged tags s = new_Set (Array_from (fst (add_tags (Array_from tags) s)) @ Array_from tags)"

text \<open>
  The condition under which \<^verbatim>\<open>insert\<close> increments \<^verbatim>\<open>updated\<close> for a record: a supplied
  tag is missing, or a locale is supplied and differs.
\<close>

definition counts_updated :: "Tag jsset \<Rightarrow> Locale option \<Rightarrow> Record \<Rightarrow> bool" where
  "counts_updated tags locale rec \<longleftrightarrow>
     \<not> set (Array_from tags) \<subseteq> set (Array_from (rec_tags rec)) \<or> (truthy locale \<and> locale \<noteq> rec_locale rec)"

definition settled :: "Tag jsset \<Rightarrow> Locale option \<Rightarrow> DB \<Rightarrow> Email \<Rightarrow> bool" where
  "settled tags locale db email \<longleftrightarrow>
     (\<exists>rec. DAList.lookup db email = Some rec \<and> \<not> counts_updated tags locale rec)"

text \<open>An address whose status \<^verbatim>\<open>setStatus\<close> changes.\<close>

definition changed :: "Email list \<Rightarrow> Status \<Rightarrow> DB \<Rightarrow> Email \<Rightarrow> bool" where
  "changed emails status db k \<longleftrightarrow>
     k \<in> set emails \<and> (\<exists>rec. DAList.lookup db k = Some rec \<and> rec_status rec \<noteq> Some status)"

text \<open>The entry that \<^verbatim>\<open>lookup\<close> returns for an address, if it returns one.\<close>

definition entry_of :: "(jsstring \<Rightarrow> int option) \<Rightarrow> Query \<Rightarrow> DB \<Rightarrow> Email \<Rightarrow> Entry option" where
  "entry_of days q db email =
     (case DAList.lookup db email of
        None \<Rightarrow> None
      | Some rec \<Rightarrow>
          if status_skip q rec \<or> cold_skip days q rec \<or> tags_skip q rec \<or> locale_skip q email rec then None
          else Some \<lparr>e_tags = new_Set (Array_from (rec_tags rec)), e_locale = calculatedLocale email rec\<rparr>)"

text \<open>The items of the page of turn \<open>i\<close>.\<close>

definition items_at ::
  "(jsstring \<Rightarrow> ('a, 'w) request) \<Rightarrow> (nat \<Rightarrow> ('a, 'w) request) \<Rightarrow> nat \<Rightarrow> jsstring option \<Rightarrow> 'w \<Rightarrow> nat \<Rightarrow> 'a list" where
  "items_at get fn limit url w i = (case page_at get fn limit i url w of None \<Rightarrow> [] | Some p \<Rightarrow> items p)"

text \<open>
  The persisted format: an object with distinct keys whose members are records with an array
  of strings as tags, and the other members absent or of the declared type.
\<close>

definition record_format :: "json \<Rightarrow> bool" where
  "record_format v \<longleftrightarrow>
     (case v of
        JObj ms \<Rightarrow>
          (case map_of ms (js ''tags'') of
             Some (JArr xs) \<Rightarrow> list_all (\<lambda>x. the_JStr x \<noteq> None) xs
           | _ \<Rightarrow> False)
          \<and> string_of (map_of ms (js ''locale'')) \<noteq> Untyped
          \<and> status_of (map_of ms (js ''status'')) \<noteq> Untyped
          \<and> string_of (map_of ms (js ''lastDelivered'')) \<noteq> Untyped
      | _ \<Rightarrow> False)"

definition persisted_format :: "(jsstring \<times> json) list \<Rightarrow> bool" where
  "persisted_format kvs \<longleftrightarrow> distinct (map fst kvs) \<and> list_all (\<lambda>(email, v). record_format v) kvs"

text \<open>The same list of entries with \<open>f\<close> applied to each value.\<close>

lift_definition map_values :: "('v \<Rightarrow> 'w) \<Rightarrow> ('k, 'v) alist \<Rightarrow> ('k, 'w) alist"
  is "\<lambda>f xs. map (\<lambda>(k, v). (k, f v)) xs"
  by (simp add: comp_def split_def)

text \<open>The at sign.\<close>

definition at_sign :: jschar where
  "at_sign = ch CHR ''@''"

text \<open>Every set that a record of the directory holds is allocated.\<close>

definition allocated :: "Store \<Rightarrow> bool" where
  "allocated h \<longleftrightarrow> (\<forall>email p. DAList.lookup (directory h) email = Some p \<longrightarrow> tags_ref (record_at h p) < fresh h)"

text \<open>
  What an entry of the result is, for the record under \<open>p\<close>: a reference taken between
  the two stores to a set equal to the stored one, and the locale: the stored one unless
  it is absent or empty, and else guessed from the end of the address.
\<close>

definition copy_of :: "Store \<Rightarrow> Store \<Rightarrow> Email \<Rightarrow> ref \<Rightarrow> StoredEntry \<Rightarrow> bool" where
  "copy_of h h' email p e \<longleftrightarrow>
     fresh h \<le> entry_ref e \<and> entry_ref e < fresh h' \<and>
     set_at h' (entry_ref e) = set_at h (tags_ref (record_at h p)) \<and>
     entry_locale e =
       (if stored_locale (record_at h p) = None \<or> stored_locale (record_at h p) = Some []
        then (if suffix (js ''.ru'') email then js ''ru'' else js ''en'')
        else the (stored_locale (record_at h p)))"

text \<open>The directory and the entry that a store holds, as values.\<close>

definition view :: "Store \<Rightarrow> DB" where
  "view h = map_values (deref h) (directory h)"

definition view_entry :: "Store \<Rightarrow> StoredEntry \<Rightarrow> Entry" where
  "view_entry h e = \<lparr>e_tags = set_at h (entry_ref e), e_locale = entry_locale e\<rparr>"

text \<open>The sets of the entries are allocated; no two entries hold the same set.\<close>

definition below :: "(Email, StoredEntry) alist \<Rightarrow> Store \<Rightarrow> bool" where
  "below result h \<longleftrightarrow> (\<forall>k e. DAList.lookup result k = Some e \<longrightarrow> entry_ref e < fresh h)"

definition separate :: "(Email, StoredEntry) alist \<Rightarrow> bool" where
  "separate result \<longleftrightarrow>
     (\<forall>k e k' e'. DAList.lookup result k = Some e \<and> DAList.lookup result k' = Some e' \<and> k' \<noteq> k
        \<longrightarrow> entry_ref e' \<noteq> entry_ref e)"

section \<open>Example data\<close>

text \<open>
  A directory with a key that has no address in it and a key with text around the address.
\<close>

definition db_bad :: DB where
  "db_bad = DAList.update (js ''junk'') new_record
              (DAList.update (js ''  bad@site.com,'') (new_record\<lparr>rec_tags := new_Set [js ''t1'']\<rparr>) DAList.empty)"

text \<open>A directory with one record, of status \<^verbatim>\<open>dirty\<close>.\<close>

definition db_dirty :: DB where
  "db_dirty = DAList.update (js ''c@z.com'') new_record DAList.empty"

text \<open>An import file of three lines, two of them with an address, and what it leaves in an empty directory.\<close>

definition two_lines :: jsstring where
  "two_lines = js ''a@x.com'' @ [0xA] @ js ''junk'' @ [0xA] @ js ''b@y.ru''"

definition rec_t1 :: Record where
  "rec_t1 = new_record\<lparr>rec_tags := new_Set [js ''t1'']\<rparr>"

definition db_two :: DB where
  "db_two = DAList.update (js ''b@y.ru'') rec_t1 (DAList.update (js ''a@x.com'') rec_t1 DAList.empty)"

text \<open>A directory whose record already carries a delivery timestamp.\<close>

definition db_sent :: DB where
  "db_sent = DAList.update (js ''c@z.com'') (new_record\<lparr>rec_lastDelivered := Some (js ''2018-05-01T10:00:00+00:00'')\<rparr>) DAList.empty"

text \<open>
  A directory with a clean and a broken record, a query without any filter, a query for the
  broken records, and a clock that makes moment answer \<^verbatim>\<open>NaN\<close>.
\<close>

definition db_mixed :: DB where
  "db_mixed = DAList.update (js ''b@y.ru'') (rec_t1\<lparr>rec_status := Some Broken\<rparr>)
                (DAList.update (js ''a@x.com'') (rec_t1\<lparr>rec_status := Some Clean\<rparr>) DAList.empty)"

definition q_all :: Query where
  "q_all = \<lparr>q_tags = new_Set [], q_locale = None, q_statusOnly = None, q_coldDays = None\<rparr>"

definition q_broken :: Query where
  "q_broken = \<lparr>q_tags = new_Set [], q_locale = None, q_statusOnly = Some Broken, q_coldDays = None\<rparr>"

definition no_clock :: "jsstring \<Rightarrow> int option" where
  "no_clock stamp = None"

text \<open>
  A provider that answers from a list of pages, whatever the request; the third page is
  empty and carries a cursor.
\<close>

definition script :: "nat Response list" where
  "script =
     [\<lparr>items = [1, 2], paging_next = Some (api_prefix @ js ''/lists/pages?page=next&address=b'')\<rparr>,
      \<lparr>items = [3], paging_next = Some (api_prefix @ js ''/lists/pages?page=next&address=c'')\<rparr>,
      \<lparr>items = [], paging_next = Some (api_prefix @ js ''/lists/pages?page=next&address=c'')\<rparr>,
      \<lparr>items = [4], paging_next = None\<rparr>]"

definition scripted :: "'a Response list \<Rightarrow> ('a, nat) request" where
  "scripted pages w = (if w < length pages then Inr (pages ! w) else Inl RequestError, Suc w)"

text \<open>
  Parsed files: a record that is \<^verbatim>\<open>null\<close>; a record whose tags are an object and not
  an array (as \<^verbatim>\<open>JSON.stringify\<close> writes a \<^verbatim>\<open>Set\<close> that has no \<^verbatim>\<open>toJSON\<close> method);
  and a record in the persisted format.
\<close>

definition file_null :: json where
  "file_null = JObj [(js ''a@x.com'', JNull)]"

definition file_saved :: json where
  "file_saved = JObj [(js ''a@x.com'', JObj [(js ''tags'', JObj []), (js ''status'', JStr (js ''dirty''))])]"

definition members_ok :: "(jsstring \<times> json) list" where
  "members_ok = [(js ''tags'', JArr (map JStr [js ''t1'', js ''t2'', js ''t1''])), (js ''status'', JStr (js ''dirty''))]"

definition file_ok :: "(jsstring \<times> json) list" where
  "file_ok = [(js ''a@x.com'', JObj members_ok)]"

text \<open>
  A query for the tag \<open>t1\<close> and nothing else, and a directory in which one record of two has
  that tag.
\<close>

definition q_t1 :: Query where
  "q_t1 = \<lparr>q_tags = new_Set [js ''t1''], q_locale = None, q_statusOnly = None, q_coldDays = None\<rparr>"

definition db_tagged :: DB where
  "db_tagged = DAList.update (js ''b@y.ru'') (new_record\<lparr>rec_tags := new_Set [js ''t2'']\<rparr>)
                (DAList.update (js ''a@x.com'') (new_record\<lparr>rec_tags := new_Set [js ''t2'', js ''t1'']\<rparr>) DAList.empty)"

text \<open>The realm in which nothing has been written on \<^verbatim>\<open>Object.prototype\<close> or its functions.\<close>

definition pristine :: Realm where
  "pristine = \<lparr>fn_lastDelivered = DAList.empty, proto_lastDelivered = None\<rparr>"

text \<open>
  A store with a directory of one record, and the store and the entry after a query that
  returns the record.
\<close>

definition stored_a :: StoredRecord where
  "stored_a = \<lparr>tags_ref = 1, stored_locale = None, stored_status = Some Clean, stored_lastDelivered = None\<rparr>"

definition store0 :: Store where
  "store0 = \<lparr>directory = DAList.update (js ''a@x.com'') 0 DAList.empty, record_at = (\<lambda>p. stored_a),
             set_at = (\<lambda>p. new_Set [js ''t1'']), fresh = 2\<rparr>"

definition store1 :: Store where
  "store1 = store0\<lparr>set_at := (set_at store0)(2 := new_Set [js ''t1'']), fresh := 3\<rparr>"

definition entry_a :: StoredEntry where
  "entry_a = \<lparr>entry_ref = 2, entry_locale = js ''en''\<rparr>"

chapter \<open>Properties\<close>

section \<open>The normalizer returns a fixed point\<close>

lemma cut_append: "cut q (xs @ ys) = cut q xs @ cut q ys"
  by (simp add: cut_def)

lemma cut_short: "\<forall>y\<in>set ys. length y < length q \<Longrightarrow> cut q ys = []"
  by (induction ys) (auto simp: cut_def)

lemma bind_cut:
  assumes "\<forall>y\<in>set ys. length q \<le> length y \<longrightarrow> g' (take (length y - length q) y) = cut q (g y)"
    and "\<forall>y\<in>set ys. length y < length q \<longrightarrow> cut q (g y) = []"
  shows "concat (map g' (cut q ys)) = cut q (concat (map g ys))"
  using assms
proof (induction ys)
  case Nil
  show ?case by (simp add: cut_def)
next
  case (Cons y ys)
  have rest: "concat (map g' (cut q ys)) = cut q (concat (map g ys))"
    using Cons by simp
  show ?case
  proof (cases "length q \<le> length y")
    case True
    then have "g' (take (length y - length q) y) = cut q (g y)"
      using Cons.prems(1) by simp
    moreover have "cut q (y # ys) = take (length y - length q) y # cut q ys"
      using True by (simp add: cut_def)
    ultimately show ?thesis
      using rest by (simp add: cut_append)
  next
    case False
    then have "cut q (g y) = []"
      using Cons.prems(2) by simp
    moreover have "cut q (y # ys) = cut q ys"
      using False by (simp add: cut_def)
    ultimately show ?thesis
      using rest by (simp add: cut_append)
  qed
qed

lemma rep_unfold:
  "rep m lo hi x =
     (if hi = Some 0 then [x]
      else (concat (map (\<lambda>y. if lo = 0 \<and> length x \<le> length y then []
                                else rep m (lo - 1) (map_option (\<lambda>h. h - 1) hi) y) (m x)))
           @ (if lo \<noteq> 0 then [] else [x]))"
  by (subst rep.simps) (simp add: Let_def)

text \<open>A match leaves a suffix of the input.\<close>

lemma rep_suffix:
  "(\<And>x y. y \<in> set (m x) \<Longrightarrow> suffix y x) \<Longrightarrow> y \<in> set (rep m lo hi x) \<Longrightarrow> suffix y x"
proof (induction m lo hi x arbitrary: y rule: rep.induct)
  case (1 m lo hi x)
  show ?case
  proof (cases "hi = Some 0")
    case True
    then have "rep m lo hi x = [x]"
      by (subst rep_unfold) simp
    with "1.prems"(2) show ?thesis by simp
  next
    case False
    from "1.prems"(2) False
    consider (iter) y' where "y' \<in> set (m x)" "\<not> (lo = 0 \<and> length x \<le> length y')"
        "y \<in> set (rep m (lo - 1) (map_option (\<lambda>h. h - 1) hi) y')"
      | (stop) "y = x"
      by (subst (asm) rep_unfold) (auto split: if_splits)
    then show ?thesis
    proof cases
      case iter
      have "suffix y y'"
        using "1.IH"[OF False iter(1) iter(2) "1.prems"(1) iter(3)] .
      moreover have "suffix y' x"
        using "1.prems"(1) iter(1) .
      ultimately show ?thesis
        by (rule suffix_order.trans)
    next
      case stop
      then show ?thesis by simp
    qed
  qed
qed

lemma matcher_suffix: "y \<in> set (matcher r x) \<Longrightarrow> suffix y x"
proof (induction r arbitrary: x y)
  case (Atom p)
  then show ?case
    by (auto split: list.splits if_splits simp: suffix_def)
next
  case (Cat a b)
  then obtain z where "z \<in> set (matcher a x)" "y \<in> set (matcher b z)"
    by auto
  then show ?case
    using Cat.IH suffix_order.trans by blast
next
  case (Alt a b)
  then show ?case by auto
next
  case (Rep lo hi a)
  then show ?case
    using rep_suffix[of "matcher a" y lo hi x] by simp
qed

lemma suffix_split:
  assumes "suffix y (p @ q)" "length q \<le> length y"
  shows "y = take (length y - length q) y @ q \<and> suffix (take (length y - length q) y) p"
proof -
  from assms(1) obtain u where u: "p @ q = u @ y"
    by (auto simp: suffix_def)
  let ?k = "length y - length q"
  have "length p = length u + ?k"
    using arg_cong[OF u, of length] assms(2) by simp
  then have "drop (length p) (p @ q) = drop ?k y"
    by (simp add: u)
  then have q: "q = drop ?k y"
    by simp
  then have v: "y = take ?k y @ q"
    by (metis append_take_drop_id)
  with u have "p @ q = (u @ take ?k y) @ q"
    by (metis append.assoc)
  then have "p = u @ take ?k y"
    by simp
  with v show ?thesis
    by (simp add: suffix_def)
qed

text \<open>
  Matching is local: on the input \<open>p\<close> alone the matcher does what it does on \<open>p @ q\<close>,
  restricted to the matches that end inside \<open>p\<close>, in the same order. This is where the
  absence of anchors and look-ahead in the expression language is used.
\<close>

lemma rep_local:
  assumes suf: "\<And>x y. y \<in> set (m x) \<Longrightarrow> suffix y x"
    and loc: "\<And>p q. m p = cut q (m (p @ q))"
  shows "rep m lo hi p = cut q (rep m lo hi (p @ q))"
  using assms
proof (induction m lo hi p rule: rep.induct)
  case (1 m lo hi p)
  note suf = "1.prems"(1) and loc = "1.prems"(2)
  let ?lo = "lo - 1" and ?hi = "map_option (\<lambda>h. h - 1) hi"
  show ?case
  proof (cases "hi = Some 0")
    case True
    then show ?thesis
      by (subst rep_unfold, subst (2) rep_unfold) (simp add: cut_def)
  next
    case False
    let ?g' = "\<lambda>y. if lo = 0 \<and> length p \<le> length y then [] else rep m ?lo ?hi y"
    let ?g = "\<lambda>y. if lo = 0 \<and> length (p @ q) \<le> length y then [] else rep m ?lo ?hi y"
    have A: "\<forall>y\<in>set (m (p @ q)). length q \<le> length y \<longrightarrow>
               ?g' (take (length y - length q) y) = cut q (?g y)"
    proof (intro ballI impI)
      fix y assume y: "y \<in> set (m (p @ q))" and len: "length q \<le> length y"
      let ?p' = "take (length y - length q) y"
      have sp: "y = ?p' @ q" "suffix ?p' p"
        using suffix_split[OF suf[OF y] len] by simp_all
      have mem: "?p' \<in> set (m p)"
        using y len by (subst loc[of p q]) (auto simp: cut_def)
      have guard: "length (p @ q) \<le> length y \<longleftrightarrow> length p \<le> length ?p'"
        using len by auto
      show "?g' ?p' = cut q (?g y)"
      proof (cases "lo = 0 \<and> length p \<le> length ?p'")
        case True
        then show ?thesis using guard by (simp add: cut_def)
      next
        case F: False
        then have nG: "\<not> (lo = 0 \<and> length (p @ q) \<le> length y)"
          using guard by blast
        have e1: "?g' ?p' = rep m ?lo ?hi ?p'"
          using F by (rule if_not_P)
        have e2: "?g y = rep m ?lo ?hi y"
          using nG by (rule if_not_P)
        have "rep m ?lo ?hi ?p' = cut q (rep m ?lo ?hi (?p' @ q))"
          using "1.IH"[OF False mem F suf loc] .
        also have "?p' @ q = y"
          using sp(1) by (rule sym)
        finally have r: "rep m ?lo ?hi ?p' = cut q (rep m ?lo ?hi y)" .
        have "?g' ?p' = rep m ?lo ?hi ?p'"
          by (rule e1)
        also have "\<dots> = cut q (rep m ?lo ?hi y)"
          by (rule r)
        also have "\<dots> = cut q (?g y)"
          by (simp only: e2)
        finally show ?thesis .
      qed
    qed
    have B: "\<forall>y\<in>set (m (p @ q)). length y < length q \<longrightarrow> cut q (?g y) = []"
    proof (intro ballI impI)
      fix y assume y: "y \<in> set (m (p @ q))" and len: "length y < length q"
      have "\<forall>z\<in>set (rep m ?lo ?hi y). length z < length q"
        using rep_suffix[of m _ ?lo ?hi y] suf len
        by (meson le_less_trans suffix_length_le)
      then have "cut q (rep m ?lo ?hi y) = []"
        by (rule cut_short)
      then show "cut q (?g y) = []"
        by (simp add: cut_def)
    qed
    have "concat (map ?g' (m p)) = cut q (concat (map ?g (m (p @ q))))"
      using bind_cut[OF A B] loc[of p q] by simp
    then show ?thesis
      using False
      by (subst rep_unfold, subst (2) rep_unfold) (simp add: cut_append, simp add: cut_def)
  qed
qed

lemma matcher_local: "matcher r p = cut q (matcher r (p @ q))"
proof (induction r arbitrary: p q)
  case (Atom f)
  show ?case
    by (cases p; cases q) (simp_all add: cut_def)
next
  case (Cat a b)
  have A: "\<forall>y\<in>set (matcher a (p @ q)). length q \<le> length y \<longrightarrow>
             matcher b (take (length y - length q) y) = cut q (matcher b y)"
  proof (intro ballI impI)
    fix y assume y: "y \<in> set (matcher a (p @ q))" and len: "length q \<le> length y"
    have "take (length y - length q) y @ q = y"
      using suffix_split[OF matcher_suffix[OF y] len, THEN conjunct1] by (rule sym)
    then show "matcher b (take (length y - length q) y) = cut q (matcher b y)"
      using Cat.IH(2)[of "take (length y - length q) y" q] by simp
  qed
  have B: "\<forall>y\<in>set (matcher a (p @ q)). length y < length q \<longrightarrow> cut q (matcher b y) = []"
  proof (intro ballI impI)
    fix y assume "y \<in> set (matcher a (p @ q))" and "length y < length q"
    then have "\<forall>z\<in>set (matcher b y). length z < length q"
      using matcher_suffix[of _ b y] by (meson le_less_trans suffix_length_le)
    then show "cut q (matcher b y) = []"
      by (rule cut_short)
  qed
  show ?case
    using bind_cut[OF A B] Cat.IH(1)[of p q] by simp
next
  case (Alt a b)
  show ?case
    using Alt.IH(1)[of p q] Alt.IH(2)[of p q] by (simp add: cut_append)
next
  case (Rep lo hi a)
  have "rep (matcher a) lo hi p = cut q (rep (matcher a) lo hi (p @ q))"
    by (rule rep_local[OF matcher_suffix Rep.IH])
  then show ?case
    by simp
qed

lemma exec_Some:
  "exec r s = Some x \<Longrightarrow> \<exists>pre post ys. s = pre @ x @ post \<and> matcher r (x @ post) = post # ys"
proof (induction r s rule: exec.induct)
  case (1 r)
  then obtain y ys where m: "matcher r [] = y # ys" and x: "x = []"
    by (auto split: list.splits)
  then have "y = []"
    using matcher_suffix[of y r "[]"] by simp
  with m x show ?case by simp
next
  case (2 r c s)
  show ?case
  proof (cases "matcher r (c # s)")
    case Nil
    then have "exec r s = Some x"
      using "2.prems" by simp
    then obtain pre post ys where "s = pre @ x @ post" "matcher r (x @ post) = post # ys"
      using "2.IH"[OF Nil] by blast
    then have "c # s = (c # pre) @ x @ post \<and> matcher r (x @ post) = post # ys"
      by simp
    then show ?thesis by blast
  next
    case (Cons y ys)
    then have x: "x = take (length (c # s) - length y) (c # s)"
      using "2.prems" by simp
    have "suffix y (c # s)"
      using matcher_suffix[of y r "c # s"] Cons by simp
    then obtain u where u: "c # s = u @ y"
      by (auto simp: suffix_def)
    then have "x = u"
      using x by simp
    then have "c # s = [] @ x @ y \<and> matcher r (x @ y) = y # ys"
      using u Cons by simp
    then show ?thesis by blast
  qed
qed

lemma exec_whole: "matcher r x = [] # ys \<Longrightarrow> exec r x = Some x"
  by (cases x) simp_all

text \<open>What \<open>exec\<close> extracts, \<open>exec\<close> maps to itself.\<close>

lemma exec_idem: "exec r s = Some x \<Longrightarrow> exec r x = Some x"
proof -
  assume "exec r s = Some x"
  then obtain pre post ys where "matcher r (x @ post) = post # ys"
    using exec_Some by blast
  then have "matcher r x = cut post (post # ys)"
    using matcher_local[of r x post] by simp
  then have "matcher r x = [] # cut post ys"
    by (simp add: cut_def)
  then show ?thesis
    by (rule exec_whole)
qed

lemma filterEmail_idem: "filterEmail line = Some email \<Longrightarrow> filterEmail email = Some email"
  unfolding filterEmail_def by (rule exec_idem)

lemma filterEmail_Nil: "filterEmail [] = None"
  by code_simp

lemma truthy_Some_iff: "truthy (Some s) \<longleftrightarrow> s \<noteq> []"
  by (simp add: truthy_def)

lemma truthy_None: "\<not> truthy None"
  by (simp add: truthy_def)

lemma truthy_filterEmail: "truthy (filterEmail line) \<longleftrightarrow> filterEmail line \<noteq> None"
proof (cases "filterEmail line")
  case None
  then show ?thesis by (simp add: truthy_None)
next
  case (Some e)
  then have "filterEmail e = Some e"
    by (rule filterEmail_idem)
  then have "e \<noteq> []"
    using filterEmail_Nil by auto
  with Some show ?thesis by (simp add: truthy_Some_iff)
qed

section \<open>Dictionaries\<close>

lemma set_keys: "set (keys db) = dom (DAList.lookup db)"
  unfolding keys_def by transfer (simp add: dom_map_of_conv_image_fst)

lemma distinct_keys: "distinct (keys db)"
  unfolding keys_def by transfer simp

lemma in_keys_iff: "k \<in> set (keys db) \<longleftrightarrow> DAList.lookup db k \<noteq> None"
  by (auto simp: set_keys)

lemma keys_update: "set (keys (DAList.update k v db)) = Set.insert k (set (keys db))"
  by (auto simp: set_keys DAList.lookup_update)

lemma keys_delete: "set (keys (DAList.delete k db)) = set (keys db) - {k}"
  by (auto simp: set_keys)

lemma keys_empty: "keys DAList.empty = []"
  unfolding keys_def by transfer simp

lemma of_char_less: "(of_char c :: nat) < 2 ^ 16"
proof -
  have "(of_char c :: nat) mod 256 < 256"
    by (rule mod_less_divisor) simp
  then have "(of_char c :: nat) < 256"
    by (simp only: of_char_mod_256)
  also have "(256 :: nat) < 2 ^ 16"
    by simp
  finally show ?thesis .
qed

lemma inj_ch: "inj ch"
proof (rule injI)
  fix a b assume "ch a = ch b"
  then have "(of_nat (of_char a) :: 16 word) = of_nat (of_char b)"
    by (simp add: ch_def)
  then have "take_bit 16 (of_char a :: nat) = take_bit 16 (of_char b :: nat)"
    by (simp add: word_of_nat_eq_iff)
  then have "(of_char a :: nat) = of_char b"
    using of_char_less[of a] of_char_less[of b] by (simp add: take_bit_nat_eq_self)
  then show "a = b"
    by simp
qed

lemma js_eq_iff: "js a = js b \<longleftrightarrow> a = b"
  unfolding js_def using inj_ch by (simp add: inj_map_eq_map)

lemma js_Nil: "js a = [] \<longleftrightarrow> a = []" "[] = js a \<longleftrightarrow> a = []"
  by (auto simp: js_def)

lemma keys_update_list:
  "keys (DAList.update k v db) = (if k \<in> set (keys db) then keys db else keys db @ [k])"
  unfolding keys_def
  by transfer (simp add: update_keys)

lemma keys_delete_list: "keys (DAList.delete k db) = removeAll k (keys db)"
  unfolding keys_def
  by transfer (simp add: delete_keys)

lemma update_same: "DAList.lookup db k = Some v \<Longrightarrow> DAList.update k v db = db"
  by transfer (simp add: update_triv)

section \<open>The normalizer on the example lines\<close>

lemma filterEmail_junk: "filterEmail (js ''junk'') = None"
  by code_simp

lemma filterEmail_bad: "filterEmail (js ''  bad@site.com,'') = Some (js ''bad@site.com'')"
  by code_simp

lemma filterEmail_a: "filterEmail (js ''a@x.com'') = Some (js ''a@x.com'')"
  by code_simp

lemma filterEmail_b: "filterEmail (js ''b@y.ru'') = Some (js ''b@y.ru'')"
  by code_simp

lemma split_two_lines: "split_lines two_lines = [js ''a@x.com'', js ''junk'', js ''b@y.ru'']"
  by code_simp

section \<open>cleanup\<close>

lemma cleanup_step_keys:
  assumes "k \<in> set (keys (fst (cleanup_step email (db, result))))"
  shows "filterEmail k = Some k \<or> (k \<in> set (keys db) \<and> k \<noteq> email)"
proof (cases "DAList.lookup db email")
  case None
  then have "email \<notin> set (keys db)"
    by (simp add: in_keys_iff)
  with assms None show ?thesis
    by (auto simp: cleanup_step_def)
next
  case (Some rec)
  show ?thesis
  proof (cases "filterEmail email")
    case None
    with assms Some show ?thesis
      by (simp add: cleanup_step_def truthy_None keys_delete)
  next
    case F: (Some filtered)
    then have t: "truthy (filterEmail email)"
      using truthy_filterEmail[of email] by simp
    have n: "filterEmail filtered = Some filtered"
      using F by (rule filterEmail_idem)
    show ?thesis
    proof (cases "filtered = email")
      case True
      with assms Some F t n show ?thesis
        by (auto simp: cleanup_step_def)
    next
      case False
      with assms Some F t n show ?thesis
        by (auto simp: cleanup_step_def keys_delete keys_update)
    qed
  qed
qed

lemma cleanup_fold_keys:
  "k \<in> set (keys (fst (fold cleanup_step ks st))) \<Longrightarrow>
     filterEmail k = Some k \<or> (k \<in> set (keys (fst st)) \<and> k \<notin> set ks)"
proof (induction ks arbitrary: st)
  case Nil
  then show ?case by simp
next
  case (Cons e ks)
  obtain db result where st: "st = (db, result)"
    by (cases st)
  from Cons.prems have "k \<in> set (keys (fst (fold cleanup_step ks (cleanup_step e st))))"
    by simp
  then have "filterEmail k = Some k \<or> (k \<in> set (keys (fst (cleanup_step e st))) \<and> k \<notin> set ks)"
    by (rule Cons.IH)
  then show ?case
    using cleanup_step_keys[of k e db result] st by auto
qed

lemma cleanup_step_normal:
  "filterEmail email = Some email \<Longrightarrow> cleanup_step email st = st"
  using truthy_filterEmail[of email]
  by (cases st) (simp add: cleanup_step_def split: option.splits)

lemma cleanup_fold_normal:
  "\<forall>k\<in>set ks. filterEmail k = Some k \<Longrightarrow> fold cleanup_step ks st = st"
  by (induction ks arbitrary: st) (simp_all add: cleanup_step_normal)

text \<open>
  Claim C2. After one run of \<^verbatim>\<open>cleanup\<close>, every key left in the directory is mapped to
  itself by the address normalizer \<^verbatim>\<open>filterEmail\<close>; and a second run right after the first
  changes nothing and reports \<open>deleted = 0\<close> and \<open>fixed = 0\<close>.
\<close>

theorem cleanup_leaves_normal_keys:
  "(\<forall>k\<in>set (keys (fst (cleanup db))). filterEmail k = Some k) \<and>
   cleanup (fst (cleanup db)) = (fst (cleanup db), \<lparr>deleted = 0, fixed = 0\<rparr>)"
proof -
  have a: "\<forall>k\<in>set (keys (fst (cleanup db))). filterEmail k = Some k"
    using cleanup_fold_keys[of _ "keys db" "(db, \<lparr>deleted = 0, fixed = 0\<rparr>)"]
    by (auto simp: cleanup_def)
  then have "fold cleanup_step (keys (fst (cleanup db))) (fst (cleanup db), \<lparr>deleted = 0, fixed = 0\<rparr>)
      = (fst (cleanup db), \<lparr>deleted = 0, fixed = 0\<rparr>)"
    by (rule cleanup_fold_normal)
  then have "cleanup (fst (cleanup db)) = (fst (cleanup db), \<lparr>deleted = 0, fixed = 0\<rparr>)"
    by (simp add: cleanup_def)
  with a show ?thesis by simp
qed

lemma cleanup_db_bad:
  "keys (fst (cleanup db_bad)) = [js ''bad@site.com''] \<and> snd (cleanup db_bad) = \<lparr>deleted = 1, fixed = 1\<rparr>"
  by (simp add: cleanup_def db_bad_def cleanup_step_def keys_update_list keys_delete_list keys_empty
      js_eq_iff js_Nil filterEmail_junk filterEmail_bad truthy_def DAList.lookup_update)

theorem cleanup_leaves_normal_keys_witness:
  "keys (fst (cleanup db_bad)) = [js ''bad@site.com''] \<and>
   snd (cleanup db_bad) = \<lparr>deleted = 1, fixed = 1\<rparr> \<and>
   filterEmail (js ''bad@site.com'') = Some (js ''bad@site.com'') \<and>
   snd (cleanup (fst (cleanup db_bad))) = \<lparr>deleted = 0, fixed = 0\<rparr>"
  using cleanup_leaves_normal_keys[of db_bad] cleanup_db_bad by simp

section \<open>Sets of tags\<close>

lemma Array_from_distinct: "distinct (Array_from s)"
  using Array_from[of s] by simp

lemma uniq_distinct_id: "distinct xs \<Longrightarrow> uniq xs = xs"
  by (simp add: uniq_def distinct_remdups_id)

lemma set_uniq: "set (uniq xs) = set xs"
  by (simp add: uniq_def)

lemma uniq_append_subset: "distinct xs \<Longrightarrow> set ys \<subseteq> set xs \<Longrightarrow> uniq (xs @ ys) = xs"
proof -
  assume d: "distinct xs" and sub: "set ys \<subseteq> set xs"
  have "remdups (rev ys @ rev xs) = remdups (rev xs)"
    using sub by (intro remdups_append) simp
  then have "remdups (rev ys @ rev xs) = rev xs"
    using d by (simp add: distinct_remdups_id)
  then show ?thesis
    by (simp add: uniq_def)
qed

lemma add_tags_fold:
  "fold (\<lambda>tag (s, addedTags). if \<not> has s tag then (add tag s, True) else (s, addedTags)) ts (s, a)
     = (s', a') \<Longrightarrow>
   set (Array_from s') = set (Array_from s) \<union> set ts \<and> (a' \<longleftrightarrow> a \<or> \<not> set ts \<subseteq> set (Array_from s))
   \<and> (set ts \<subseteq> set (Array_from s) \<longrightarrow> s' = s)"
proof (induction ts arbitrary: s a)
  case Nil
  then show ?case by simp
next
  case (Cons t ts)
  show ?case
  proof (cases "has s t")
    case True
    then have "t \<in> set (Array_from s)" by (simp add: has.rep_eq)
    moreover from Cons.prems True
    have "fold (\<lambda>tag (s, addedTags). if \<not> has s tag then (add tag s, True) else (s, addedTags)) ts (s, a) = (s', a')"
      by simp
    ultimately show ?thesis
      using Cons.IH[of s a] by auto
  next
    case False
    then have nt: "t \<notin> set (Array_from s)" by (simp add: has.rep_eq)
    moreover from Cons.prems False
    have "fold (\<lambda>tag (s, addedTags). if \<not> has s tag then (add tag s, True) else (s, addedTags)) ts (add t s, True) = (s', a')"
      by simp
    moreover have "set (Array_from (add t s)) = Set.insert t (set (Array_from s))"
      using nt by (simp add: add.rep_eq)
    ultimately show ?thesis
      using Cons.IH[of "add t s" True] by auto
  qed
qed

lemma add_tags_spec:
  "add_tags ts s = (s', a) \<Longrightarrow>
   set (Array_from s') = set (Array_from s) \<union> set ts \<and> (a \<longleftrightarrow> \<not> set ts \<subseteq> set (Array_from s))
   \<and> (set ts \<subseteq> set (Array_from s) \<longrightarrow> s' = s)"
  unfolding add_tags_def using add_tags_fold[of ts s False s' a] by simp

lemma merged_set: "set (Array_from (merged tags s)) = set (Array_from s) \<union> set (Array_from tags)"
proof -
  obtain s' a where e: "add_tags (Array_from tags) s = (s', a)"
    by (cases "add_tags (Array_from tags) s")
  then show ?thesis
    using add_tags_spec[OF e] by (auto simp: merged_def new_Set.rep_eq set_uniq)
qed

lemma merged_same: "set (Array_from tags) \<subseteq> set (Array_from s) \<Longrightarrow> merged tags s = s"
proof -
  assume sub: "set (Array_from tags) \<subseteq> set (Array_from s)"
  obtain s' a where e: "add_tags (Array_from tags) s = (s', a)"
    by (cases "add_tags (Array_from tags) s")
  then have "s' = s"
    using add_tags_spec[OF e] sub by simp
  then have "Array_from (merged tags s) = Array_from s"
    using e sub by (simp add: merged_def new_Set.rep_eq uniq_append_subset Array_from_distinct)
  then show ?thesis
    by (simp add: Array_from_inject)
qed

lemma added_iff: "snd (add_tags (Array_from tags) s) \<longleftrightarrow> \<not> set (Array_from tags) \<subseteq> set (Array_from s)"
proof -
  obtain s' a where e: "add_tags (Array_from tags) s = (s', a)"
    by (cases "add_tags (Array_from tags) s")
  then show ?thesis
    using add_tags_spec[OF e] by simp
qed

lemma insert_email_eq:
  "insert_email tags locale email (db, result) =
     (DAList.update email
        ((start_record db email)\<lparr>rec_tags := merged tags (rec_tags (start_record db email)),
                                   rec_locale := (if truthy locale then locale else rec_locale (start_record db email))\<rparr>) db,
      \<lparr>inserted = inserted result + (if DAList.lookup db email = None then 1 else 0),
       updated = updated result + (if counts_updated tags locale (start_record db email) then 1 else 0)\<rparr>)"
proof -
  obtain s' a where e: "add_tags (Array_from tags) (rec_tags (start_record db email)) = (s', a)"
    by (cases "add_tags (Array_from tags) (rec_tags (start_record db email))")
  have a: "a \<longleftrightarrow> \<not> set (Array_from tags) \<subseteq> set (Array_from (rec_tags (start_record db email)))"
    using added_iff[of tags "rec_tags (start_record db email)"] e by simp
  have m: "merged tags (rec_tags (start_record db email)) = new_Set (Array_from s' @ Array_from tags)"
    using e by (simp add: merged_def)
  show ?thesis
    using e a m
    by (cases "DAList.lookup db email")
       (auto simp: insert_email_def start_record_def counts_updated_def Let_def)
qed

section \<open>insert\<close>

lemma insert_lines_addresses:
  "fold (insert_line tags locale) lines st = fold (insert_email tags locale) (addresses lines) st"
  by (induction lines arbitrary: st) (simp_all add: addresses_def insert_line_def Let_def)

lemma insert_email_lookup:
  assumes "insert_email tags locale e (db, c) = (db1, c1)"
  shows "DAList.lookup db1 x =
     (if x = e then Some ((start_record db e)\<lparr>rec_tags := merged tags (rec_tags (start_record db e)),
                           rec_locale := (if truthy locale then locale else rec_locale (start_record db e))\<rparr>)
      else DAList.lookup db x)"
  using assms by (auto simp: insert_email_eq DAList.lookup_update)

lemma insert_email_settles:
  assumes "insert_email tags locale e (db, c) = (db1, c1)"
  shows "settled tags locale db1 e"
  using insert_email_lookup[OF assms, of e]
  by (auto simp: settled_def counts_updated_def merged_set)

lemma insert_email_keeps_settled:
  assumes "insert_email tags locale e (db, c) = (db1, c1)" "settled tags locale db x"
  shows "settled tags locale db1 x"
proof (cases "x = e")
  case True
  then show ?thesis using insert_email_settles[OF assms(1)] by simp
next
  case False
  then show ?thesis
    using insert_email_lookup[OF assms(1), of x] assms(2) by (simp add: settled_def)
qed

lemma fold_keeps_settled:
  "settled tags locale (fst st) x \<Longrightarrow> settled tags locale (fst (fold (insert_email tags locale) es st)) x"
proof (induction es arbitrary: st)
  case Nil
  then show ?case by simp
next
  case (Cons e es)
  obtain db c where st: "st = (db, c)" by (cases st)
  obtain db1 c1 where step: "insert_email tags locale e (db, c) = (db1, c1)"
    by (cases "insert_email tags locale e (db, c)")
  have "settled tags locale db1 x"
    using insert_email_keeps_settled[OF step] Cons.prems st by simp
  then show ?case
    using Cons.IH[of "(db1, c1)"] st step by simp
qed

lemma fold_settles:
  "x \<in> set es \<Longrightarrow> settled tags locale (fst (fold (insert_email tags locale) es st)) x"
proof (induction es arbitrary: st)
  case Nil
  then show ?case by simp
next
  case (Cons e es)
  obtain db c where st: "st = (db, c)" by (cases st)
  obtain db1 c1 where step: "insert_email tags locale e (db, c) = (db1, c1)"
    by (cases "insert_email tags locale e (db, c)")
  show ?case
  proof (cases "x \<in> set es")
    case True
    then show ?thesis
      using Cons.IH[of "(db1, c1)"] st step by simp
  next
    case False
    then have "x = e" using Cons.prems by simp
    then have "settled tags locale (fst (db1, c1)) x"
      using insert_email_settles[OF step] by simp
    then have "settled tags locale (fst (fold (insert_email tags locale) es (db1, c1))) x"
      by (rule fold_keeps_settled)
    then show ?thesis
      using st step by simp
  qed
qed

lemma insert_email_settled_noop:
  assumes "settled tags locale db e"
  shows "insert_email tags locale e (db, c) = (db, c)"
proof -
  from assms obtain rec where rec: "DAList.lookup db e = Some rec" and n: "\<not> counts_updated tags locale rec"
    by (auto simp: settled_def)
  have s: "start_record db e = rec"
    using rec by (simp add: start_record_def)
  have "merged tags (rec_tags rec) = rec_tags rec"
    using n by (intro merged_same) (simp add: counts_updated_def)
  moreover have "(if truthy locale then locale else rec_locale rec) = rec_locale rec"
    using n by (simp add: counts_updated_def)
  ultimately have r: "rec\<lparr>rec_tags := merged tags (rec_tags rec),
                        rec_locale := (if truthy locale then locale else rec_locale rec)\<rparr> = rec"
    by simp
  show ?thesis
    by (simp only: insert_email_eq s r) (simp add: rec n update_same)
qed

lemma fold_settled_noop:
  "\<forall>x\<in>set es. settled tags locale db x \<Longrightarrow> fold (insert_email tags locale) es (db, c) = (db, c)"
  by (induction es) (simp_all add: insert_email_settled_noop)

text \<open>
  Claim C5. \<^verbatim>\<open>insert\<close> is idempotent: a second run with the same file, the same tags
  and the same locale argument reports \<open>inserted = 0\<close> and \<open>updated = 0\<close> and leaves the
  directory, hence every record's tag set, as the first run left it.
\<close>

theorem insert_twice_is_noop:
  assumes "insert content tags locale db = Inr (db1, c1)"
  shows "insert content tags locale db1 = Inr (db1, \<lparr>inserted = 0, updated = 0\<rparr>)"
proof -
  from assms obtain body where content: "content = Some body"
    by (cases content) (simp_all add: insert_def)
  let ?es = "addresses (split_lines body)"
  have "fold (insert_email tags locale) ?es (db, \<lparr>inserted = 0, updated = 0\<rparr>) = (db1, c1)"
    using assms content by (simp add: insert_def insert_lines_addresses)
  then have "\<forall>x\<in>set ?es. settled tags locale db1 x"
    using fold_settles[of _ ?es tags "locale" "(db, \<lparr>inserted = 0, updated = 0\<rparr>)"] by simp
  then have "fold (insert_email tags locale) ?es (db1, \<lparr>inserted = 0, updated = 0\<rparr>)
             = (db1, \<lparr>inserted = 0, updated = 0\<rparr>)"
    by (rule fold_settled_noop)
  then show ?thesis
    using content by (simp add: insert_def insert_lines_addresses)
qed

lemma insert_two_lines:
  "insert (Some two_lines) (new_Set [js ''t1'']) None DAList.empty = Inr (db_two, \<lparr>inserted = 2, updated = 2\<rparr>)"
  by code_simp

theorem insert_twice_is_noop_witness:
  "insert (Some two_lines) (new_Set [js ''t1'']) None DAList.empty = Inr (db_two, \<lparr>inserted = 2, updated = 2\<rparr>) \<and>
   insert (Some two_lines) (new_Set [js ''t1'']) None db_two = Inr (db_two, \<lparr>inserted = 0, updated = 0\<rparr>)"
  using insert_twice_is_noop[OF insert_two_lines] insert_two_lines by simp

lemma card_step:
  assumes "finite S"
  shows "card ({x \<in> S. P x} - {e}) + (if P e then 1 else 0) = card {x \<in> Set.insert e S. P x}"
proof (cases "P e")
  case True
  then have "{x \<in> Set.insert e S. P x} = Set.insert e {x \<in> S. P x}"
    by auto
  then show ?thesis
    using True assms by (simp add: card.insert_remove)
next
  case False
  then have "{x \<in> Set.insert e S. P x} = {x \<in> S. P x}" "{x \<in> S. P x} - {e} = {x \<in> S. P x}"
    by auto
  then show ?thesis
    using False by simp
qed

lemma insert_fold_counts:
  "fold (insert_email tags locale) es (db, c) = (db', c') \<Longrightarrow>
     inserted c' = inserted c + card {e \<in> set es. DAList.lookup db e = None} \<and>
     updated c' = updated c + card {e \<in> set es. counts_updated tags locale (start_record db e)}"
proof (induction es arbitrary: db c)
  case Nil
  then show ?case by simp
next
  case (Cons e es)
  obtain db1 c1 where step: "insert_email tags locale e (db, c) = (db1, c1)"
    by (cases "insert_email tags locale e (db, c)")
  have c1: "inserted c1 = inserted c + (if DAList.lookup db e = None then 1 else 0)"
           "updated c1 = updated c + (if counts_updated tags locale (start_record db e) then 1 else 0)"
    using step by (auto simp: insert_email_eq)
  have l1: "DAList.lookup db1 x = None \<longleftrightarrow> x \<noteq> e \<and> DAList.lookup db x = None" for x
    using insert_email_lookup[OF step, of x] by simp
  have u1: "counts_updated tags locale (start_record db1 x) \<longleftrightarrow>
            x \<noteq> e \<and> counts_updated tags locale (start_record db x)" for x
  proof (cases "x = e")
    case True
    then show ?thesis
      using insert_email_settles[OF step] by (auto simp: settled_def start_record_def)
  next
    case False
    then show ?thesis
      using insert_email_lookup[OF step, of x] by (simp add: start_record_def)
  qed
  from Cons.prems step have "fold (insert_email tags locale) es (db1, c1) = (db', c')"
    by simp
  from Cons.IH[OF this]
  have i: "inserted c' = inserted c1 + card {x \<in> set es. DAList.lookup db1 x = None}"
    and u: "updated c' = updated c1 + card {x \<in> set es. counts_updated tags locale (start_record db1 x)}"
    by simp_all
  have s1: "{x \<in> set es. DAList.lookup db1 x = None} = {x \<in> set es. DAList.lookup db x = None} - {e}"
    using l1 by auto
  have s2: "{x \<in> set es. counts_updated tags locale (start_record db1 x)}
          = {x \<in> set es. counts_updated tags locale (start_record db x)} - {e}"
    using u1 by auto
  show ?case
    using i u c1 s1 s2
      card_step[of "set es" "\<lambda>x. DAList.lookup db x = None" e]
      card_step[of "set es" "\<lambda>x. counts_updated tags locale (start_record db x)" e]
    by simp
qed

lemma counts_updated_new: "Array_from tags \<noteq> [] \<Longrightarrow> counts_updated tags locale new_record"
proof -
  assume "Array_from tags \<noteq> []"
  then obtain t where "t \<in> set (Array_from tags)"
    by (cases "Array_from tags") auto
  then show ?thesis
    by (auto simp: counts_updated_def new_record_def new_Set.rep_eq uniq_def)
qed

text \<open>
  What the two counters of \<^verbatim>\<open>insert\<close> hold after a run with a non-empty tag set, whatever
  the file and the directory: \<open>inserted\<close> counts the addresses of the file that the directory
  did not hold, and \<open>updated\<close> counts each of these again, next to the stored addresses that
  gain a tag or change locale.
\<close>

lemma insert_counters:
  assumes "Array_from tags \<noteq> []" and "insert (Some body) tags locale db = Inr (db', c)"
  shows "inserted c = card {e \<in> set (addresses (split_lines body)). DAList.lookup db e = None} \<and>
         updated c = card {e \<in> set (addresses (split_lines body)).
                            DAList.lookup db e = None \<or>
                            (\<exists>rec. DAList.lookup db e = Some rec \<and> counts_updated tags locale rec)}"
proof -
  let ?es = "addresses (split_lines body)"
  have "fold (insert_email tags locale) ?es (db, \<lparr>inserted = 0, updated = 0\<rparr>) = (db', c)"
    using assms(2) by (simp add: insert_def insert_lines_addresses)
  from insert_fold_counts[OF this]
  have i: "inserted c = card {e \<in> set ?es. DAList.lookup db e = None}"
    and u: "updated c = card {e \<in> set ?es. counts_updated tags locale (start_record db e)}"
    by simp_all
  have "counts_updated tags locale (start_record db e) \<longleftrightarrow>
          DAList.lookup db e = None \<or> (\<exists>rec. DAList.lookup db e = Some rec \<and> counts_updated tags locale rec)" for e
    using counts_updated_new[OF assms(1), of "locale"]
    by (cases "DAList.lookup db e") (simp_all add: start_record_def)
  then show ?thesis
    using i u by simp
qed

lemma insert_v0_two_lines:
  "map_sum id snd (insert_v0 (Some two_lines) (new_Set [js ''t1'']) DAList.empty) = Inr \<lparr>inserted = 2, updated = 0\<rparr>"
  by (simp add: insert_v0_def split_two_lines insert_v0_line_def filterEmail_a filterEmail_b filterEmail_junk
      truthy_def js_Nil insert_v0_email_def DAList.lookup_update js_eq_iff Let_def)

text \<open>
  Claim C1 does not hold of \<^verbatim>\<open>insert\<close>. The file of three lines with the two new addresses
  \<open>a@x.com\<close> and \<open>b@y.ru\<close>, inserted with the tag \<open>t1\<close> into the empty directory, is
  reported as \<open>inserted = 2\<close> and \<open>updated = 2\<close>, where the claim says \<open>updated = 0\<close>: after
  it has created a record the loop goes on to the merge of the tags, and that sets
  \<^verbatim>\<open>addedTags\<close> for a record that starts without tags. The first version of the tool
  counts as the claim says and reports \<open>2\<close> and \<open>0\<close> on the same input; the \<^verbatim>\<open>else\<close> that
  kept a created address out of \<^verbatim>\<open>updated\<close> is gone from the later versions, which count
  through \<^verbatim>\<open>addedTags\<close>.
\<close>

theorem insert_counts_created_address_twice:
  "insert (Some two_lines) (new_Set [js ''t1'']) None DAList.empty = Inr (db_two, \<lparr>inserted = 2, updated = 2\<rparr>) \<and>
   keys db_two = [js ''a@x.com'', js ''b@y.ru''] \<and>
   map_sum id snd (insert_v0 (Some two_lines) (new_Set [js ''t1'']) DAList.empty) = Inr \<lparr>inserted = 2, updated = 0\<rparr>"
  by (simp add: insert_two_lines insert_v0_two_lines db_two_def keys_update_list keys_empty js_eq_iff)

section \<open>setStatus\<close>

lemma setStatus_fold:
  assumes "distinct ks"
  shows "(\<forall>k. DAList.lookup (fst (fold (setStatus_step emails status) ks (db, n))) k =
            (if k \<in> set ks \<and> k \<in> set emails
             then map_option (\<lambda>rec. rec\<lparr>rec_status := Some status\<rparr>) (DAList.lookup db k)
             else DAList.lookup db k))
       \<and> snd (fold (setStatus_step emails status) ks (db, n)) = n + length (filter (changed emails status db) ks)"
  using assms
proof (induction ks arbitrary: db n)
  case Nil
  show ?case by simp
next
  case (Cons e ks)
  obtain db1 n1 where step: "setStatus_step emails status e (db, n) = (db1, n1)"
    by (cases "setStatus_step emails status e (db, n)")
  have l1: "DAList.lookup db1 k =
      (if k = e \<and> k \<in> set emails then map_option (\<lambda>rec. rec\<lparr>rec_status := Some status\<rparr>) (DAList.lookup db k)
       else DAList.lookup db k)" for k
    using step by (auto simp: setStatus_step_def DAList.lookup_update split: option.splits if_splits)
  have n1: "n1 = n + (if changed emails status db e then 1 else 0)"
    using step by (auto simp: setStatus_step_def changed_def split: option.splits if_splits)
  have same: "changed emails status db1 k = changed emails status db k" if "k \<in> set ks" for k
    using that Cons.prems l1[of k] by (auto simp: changed_def)
  have filt: "filter (changed emails status db1) ks = filter (changed emails status db) ks"
    using same by (simp cong: filter_cong)
  from Cons.prems have "distinct ks" by simp
  note IH = Cons.IH[OF this, of db1 n1]
  show ?case
    using IH l1 n1 filt Cons.prems step by auto
qed

text \<open>
  Claim C3. \<^verbatim>\<open>setStatus\<close> sets the status of every listed address that the directory
  holds and leaves the other records alone; it returns the number of listed addresses in
  the directory whose status was not yet the new one; and a second call with the same
  arguments right after returns 0 (the model has no error result: the call always returns).
\<close>

theorem setStatus_counts_changes:
  "(\<forall>k. DAList.lookup (fst (setStatus emails status db)) k =
          (if k \<in> set emails
           then map_option (\<lambda>rec. rec\<lparr>rec_status := Some status\<rparr>) (DAList.lookup db k)
           else DAList.lookup db k))
   \<and> snd (setStatus emails status db) =
       card {k \<in> set emails. \<exists>rec. DAList.lookup db k = Some rec \<and> rec_status rec \<noteq> Some status}
   \<and> snd (setStatus emails status (fst (setStatus emails status db))) = 0"
proof -
  let ?db' = "fst (setStatus emails status db)"
  have f: "(\<forall>k. DAList.lookup (fst (setStatus emails status d)) k =
            (if k \<in> set (keys d) \<and> k \<in> set emails
             then map_option (\<lambda>rec. rec\<lparr>rec_status := Some status\<rparr>) (DAList.lookup d k)
             else DAList.lookup d k))
       \<and> snd (setStatus emails status d) = length (filter (changed emails status d) (keys d))" for d
    unfolding setStatus_def
    using setStatus_fold[OF distinct_keys, of emails status d d 0] by (simp only: add_0 simp_thms)
  have l: "DAList.lookup ?db' k =
          (if k \<in> set emails
           then map_option (\<lambda>rec. rec\<lparr>rec_status := Some status\<rparr>) (DAList.lookup db k)
           else DAList.lookup db k)" for k
    using f[of db] by (auto simp: in_keys_iff)
  have "length (filter (changed emails status db) (keys db)) = card {k \<in> set (keys db). changed emails status db k}"
    using distinct_keys[of db] by (simp add: distinct_card[symmetric] distinct_filter)
  also have "{k \<in> set (keys db). changed emails status db k}
      = {k \<in> set emails. \<exists>rec. DAList.lookup db k = Some rec \<and> rec_status rec \<noteq> Some status}"
    by (auto simp: changed_def in_keys_iff)
  finally have c: "snd (setStatus emails status db) =
       card {k \<in> set emails. \<exists>rec. DAList.lookup db k = Some rec \<and> rec_status rec \<noteq> Some status}"
    using f[of db] by simp
  have "\<not> changed emails status ?db' k" for k
    using l[of k] by (auto simp: changed_def)
  then have "filter (changed emails status ?db') (keys ?db') = []"
    by simp
  then have "snd (setStatus emails status ?db') = 0"
    using f[of ?db'] by simp
  with l c show ?thesis by blast
qed

lemma setStatus_db_dirty:
  "snd (setStatus [js ''c@z.com''] Clean db_dirty) = 1
   \<and> map_option rec_status (DAList.lookup (fst (setStatus [js ''c@z.com''] Clean db_dirty)) (js ''c@z.com'')) = Some (Some Clean)"
  by code_simp

theorem setStatus_counts_changes_witness:
  "snd (setStatus [js ''c@z.com''] Clean db_dirty) = 1 \<and>
   snd (setStatus [js ''c@z.com''] Clean (fst (setStatus [js ''c@z.com''] Clean db_dirty))) = 0"
  using setStatus_counts_changes[of "[js ''c@z.com'']" Clean db_dirty] setStatus_db_dirty by simp

section \<open>setLastDelivered\<close>

text \<open>
  An address holds an at sign, and no member of \<^verbatim>\<open>Object.prototype\<close> has one in its name:
  what the normalizer returns never names an inherited member.
\<close>

lemma set_js: "set (js s) = ch ` set s"
  by (simp add: js_def)

lemma at_sign_js: "at_sign \<in> set (js s) \<longleftrightarrow> CHR ''@'' \<in> set s"
  unfolding at_sign_def set_js using inj_ch by (auto simp: inj_def)

lemma inherited_no_at: "at_sign \<in> set name \<Longrightarrow> inherited realm name = None"
  by (auto simp: inherited_def object_prototype_functions_def at_sign_js)

lemma matcher_Cat_Atom:
  assumes "post \<in> set (matcher (Cat a (Cat (Atom p) b)) (e @ post))"
  shows "\<exists>c\<in>set e. p c"
proof -
  from assms obtain z where z: "z \<in> set (matcher a (e @ post))" and "post \<in> set (matcher (Cat (Atom p) b) z)"
    by auto
  then obtain w where w: "w \<in> set (matcher (Atom p) z)" and pw: "post \<in> set (matcher b w)"
    by auto
  from w obtain c where c: "z = c # w" "p c"
    by (cases z) (auto split: if_splits)
  have "suffix z (e @ post)"
    using z by (rule matcher_suffix)
  then obtain u where u: "e @ post = u @ c # w"
    using c by (auto simp: suffix_def)
  have "suffix post w"
    using pw by (rule matcher_suffix)
  then obtain v where "w = v @ post"
    by (auto simp: suffix_def)
  with u have "e @ post = (u @ c # v) @ post"
    by simp
  then have "e = u @ c # v"
    by (simp only: append_same_eq)
  with c show ?thesis by auto
qed

lemma filterEmail_at_sign: "filterEmail line = Some e \<Longrightarrow> at_sign \<in> set e"
proof -
  assume "filterEmail line = Some e"
  then obtain pre post ys where "matcher EmailRegex (e @ post) = post # ys"
    unfolding filterEmail_def using exec_Some by blast
  then have "post \<in> set (matcher (Cat local_part (Cat (Atom (\<lambda>c. c = ch CHR ''@'')) (Alt ip_literal host_name))) (e @ post))"
    by (simp add: EmailRegex_def lit_def)
  from matcher_Cat_Atom[OF this] show ?thesis
    by (simp add: at_sign_def)
qed

lemma address_not_inherited: "filterEmail line = Some e \<Longrightarrow> inherited realm e = None"
  by (rule inherited_no_at) (rule filterEmail_at_sign)

text \<open>
  On a string that names an inherited member the operation counts and writes outside the
  directory: on \<open>constructor\<close> it returns 1 and leaves a property \<^verbatim>\<open>lastDelivered\<close> on the
  function \<^verbatim>\<open>Object\<close>; on \<open>__proto__\<close> it returns 1 and leaves the property on
  \<^verbatim>\<open>Object.prototype\<close>, after which a listed \<open>lastDelivered\<close> finds a string, and strict
  code throws.
\<close>

lemma setLastDelivered_constructor:
  "setLastDelivered strict [js ''constructor''] stamp (db_sent, pristine) =
     Inr ((db_sent, pristine\<lparr>fn_lastDelivered := DAList.update (js ''constructor'') stamp DAList.empty\<rparr>), 1)"
  by (simp add: setLastDelivered_def setLastDelivered_step_def db_sent_def DAList.lookup_update js_eq_iff
      inherited_def object_prototype_functions_def pristine_def)

lemma setLastDelivered_proto:
  "setLastDelivered strict [js ''__proto__''] (js ''now'') (db_sent, pristine) =
     Inr ((db_sent, pristine\<lparr>proto_lastDelivered := Some (js ''now'')\<rparr>), 1) \<and>
   setLastDelivered True [js ''__proto__'', js ''lastDelivered''] (js ''now'') (db_sent, pristine) = Inl TypeError \<and>
   setLastDelivered False [js ''__proto__'', js ''lastDelivered''] (js ''now'') (db_sent, pristine) =
     Inr ((db_sent, pristine\<lparr>proto_lastDelivered := Some (js ''now'')\<rparr>), 2)"
  by (simp add: setLastDelivered_def setLastDelivered_step_def db_sent_def DAList.lookup_update js_eq_iff
      inherited_def object_prototype_functions_def pristine_def js_Nil)

lemma setLastDelivered_step_own:
  assumes "inherited realm e = None"
  shows "setLastDelivered_step strict stamp e (Inr ((db, realm), n)) =
           Inr ((case DAList.lookup db e of
                   None \<Rightarrow> db
                 | Some rec \<Rightarrow> DAList.update e (rec\<lparr>rec_lastDelivered := Some stamp\<rparr>) db, realm),
                n + (if DAList.lookup db e \<noteq> None then 1 else 0))"
  using assms by (simp add: setLastDelivered_step_def split: option.splits)

lemma setLastDelivered_fold:
  assumes "\<forall>e\<in>set es. inherited realm e = None"
  shows "\<exists>db'. fold (setLastDelivered_step strict stamp) es (Inr ((db, realm), n)) =
             Inr ((db', realm), n + length (filter (\<lambda>e. DAList.lookup db e \<noteq> None) es)) \<and>
           (\<forall>k. DAList.lookup db' k =
              (if k \<in> set es then map_option (\<lambda>rec. rec\<lparr>rec_lastDelivered := Some stamp\<rparr>) (DAList.lookup db k)
               else DAList.lookup db k))"
  using assms
proof (induction es arbitrary: db n)
  case Nil
  show ?case by simp
next
  case (Cons e es)
  let ?f = "\<lambda>rec. rec\<lparr>rec_lastDelivered := Some stamp\<rparr>"
  define db1 where "db1 = (case DAList.lookup db e of None \<Rightarrow> db | Some rec \<Rightarrow> DAList.update e (?f rec) db)"
  define n1 where "n1 = n + (if DAList.lookup db e \<noteq> None then 1 else (0::nat))"
  have step: "setLastDelivered_step strict stamp e (Inr ((db, realm), n)) = Inr ((db1, realm), n1)"
    using Cons.prems by (simp add: setLastDelivered_step_own db1_def n1_def)
  have l1: "DAList.lookup db1 k = (if k = e then map_option ?f (DAList.lookup db k) else DAList.lookup db k)" for k
    by (auto simp: db1_def DAList.lookup_update split: option.splits)
  have pres: "(DAList.lookup db1 k \<noteq> None) = (DAList.lookup db k \<noteq> None)" for k
    by (simp add: l1)
  have idem: "map_option ?f (DAList.lookup db1 k) = map_option ?f (DAList.lookup db k)" for k
    by (cases "DAList.lookup db k") (auto simp: l1)
  from Cons.prems have "\<forall>e\<in>set es. inherited realm e = None"
    by simp
  from Cons.IH[OF this, of db1 n1]
  obtain db' where f: "fold (setLastDelivered_step strict stamp) es (Inr ((db1, realm), n1)) =
             Inr ((db', realm), n1 + length (filter (\<lambda>e. DAList.lookup db1 e \<noteq> None) es))"
    and l: "\<And>k. DAList.lookup db' k =
              (if k \<in> set es then map_option ?f (DAList.lookup db1 k) else DAList.lookup db1 k)"
    by blast
  have "filter (\<lambda>e. DAList.lookup db1 e \<noteq> None) es = filter (\<lambda>e. DAList.lookup db e \<noteq> None) es"
    using pres by simp
  then have c: "n1 + length (filter (\<lambda>e. DAList.lookup db1 e \<noteq> None) es)
         = n + length (filter (\<lambda>e. DAList.lookup db e \<noteq> None) (e # es))"
    by (simp add: n1_def)
  have L: "DAList.lookup db' k =
          (if k \<in> set (e # es) then map_option ?f (DAList.lookup db k) else DAList.lookup db k)" for k
    using l[of k] idem[of k] l1[of k] by auto
  have "fold (setLastDelivered_step strict stamp) (e # es) (Inr ((db, realm), n)) =
          Inr ((db', realm), n + length (filter (\<lambda>e. DAList.lookup db e \<noteq> None) (e # es)))"
    using step f c by simp
  with L show ?case by blast
qed

text \<open>
  Claim C6, for a list of strings none of which names a member of \<^verbatim>\<open>Object.prototype\<close>;
  a list of addresses is such a list (\<open>address_not_inherited\<close>). \<^verbatim>\<open>setLastDelivered\<close>
  does not throw and writes to the directory only. It overwrites \<^verbatim>\<open>lastDelivered\<close> with
  the given timestamp on every listed address that the directory holds, and leaves the
  other records alone; the count it returns has one for every entry of the list that the
  directory holds, whether or not the stored value changes, so an address listed twice
  counts twice; an entry that the directory does not hold is skipped and not counted.
\<close>

theorem setLastDelivered_counts_every_update:
  assumes "\<forall>e\<in>set emails. inherited realm e = None"
  shows "\<exists>db'. setLastDelivered strict emails stamp (db, realm) =
             Inr ((db', realm), length (filter (\<lambda>e. DAList.lookup db e \<noteq> None) emails)) \<and>
           (\<forall>k. DAList.lookup db' k =
              (if k \<in> set emails then map_option (\<lambda>rec. rec\<lparr>rec_lastDelivered := Some stamp\<rparr>) (DAList.lookup db k)
               else DAList.lookup db k))"
  unfolding setLastDelivered_def
  using setLastDelivered_fold[OF assms, of strict stamp db 0] by (simp only: add_0)

lemma listed_not_inherited:
  "\<forall>e\<in>set [js ''c@z.com'', js ''x@y.org'', js ''c@z.com'']. inherited pristine e = None"
  by (simp add: inherited_no_at at_sign_js)

lemma setLastDelivered_db_sent:
  "setLastDelivered True [js ''c@z.com'', js ''x@y.org'', js ''c@z.com''] (js ''2018-05-01T10:00:00+00:00'') (db_sent, pristine)
     = Inr ((db_sent, pristine), 2)"
  by (simp add: setLastDelivered_def setLastDelivered_step_own listed_not_inherited[simplified]
      db_sent_def DAList.lookup_update js_eq_iff update_same)

theorem setLastDelivered_counts_every_update_witness:
  "inherited pristine (js ''c@z.com'') = None \<and> inherited pristine (js ''x@y.org'') = None \<and>
   setLastDelivered True [js ''c@z.com'', js ''x@y.org'', js ''c@z.com''] (js ''2018-05-01T10:00:00+00:00'') (db_sent, pristine)
     = Inr ((db_sent, pristine), 2) \<and>
   length (filter (\<lambda>e. DAList.lookup db_sent e \<noteq> None) [js ''c@z.com'', js ''x@y.org'', js ''c@z.com'']) = 2"
  using setLastDelivered_counts_every_update[OF listed_not_inherited, of True "js ''2018-05-01T10:00:00+00:00''" db_sent]
    setLastDelivered_db_sent listed_not_inherited by simp

section \<open>lookup\<close>

lemma lookup_step_lookup:
  "DAList.lookup (lookup_step days q db email result) k =
     (if k = email \<and> entry_of days q db email \<noteq> None then entry_of days q db email
      else DAList.lookup result k)"
  by (auto simp: lookup_step_def entry_of_def DAList.lookup_update split: option.splits)

lemma lookup_fold:
  "DAList.lookup (fold (lookup_step days q db) ks result) k =
     (if k \<in> set ks \<and> entry_of days q db k \<noteq> None then entry_of days q db k
      else DAList.lookup result k)"
  by (induction ks arbitrary: result) (auto simp: lookup_step_lookup)

lemma lookup_entry: "DAList.lookup (lookup days q db) email = entry_of days q db email"
proof (cases "entry_of days q db email")
  case None
  then show ?thesis
    unfolding lookup_def by (subst lookup_fold) simp
next
  case (Some e)
  then have "email \<in> set (keys db)"
    by (auto simp: entry_of_def in_keys_iff split: option.splits)
  then show ?thesis
    unfolding lookup_def using Some by (subst lookup_fold) simp
qed

lemma in_lookup_iff:
  "email \<in> set (keys (lookup days q db)) \<longleftrightarrow>
     (\<exists>rec. DAList.lookup db email = Some rec \<and> \<not> status_skip q rec \<and> \<not> cold_skip days q rec \<and>
            \<not> tags_skip q rec \<and> \<not> locale_skip q email rec)"
proof (cases "DAList.lookup db email")
  case None
  then show ?thesis
    by (simp add: in_keys_iff lookup_entry entry_of_def)
next
  case (Some rec)
  then show ?thesis
    by (simp add: in_keys_iff lookup_entry entry_of_def)
qed

lemma lookup_db_mixed:
  "keys (lookup no_clock q_all db_mixed) = [js ''a@x.com''] \<and>
   keys (lookup no_clock q_broken db_mixed) = [js ''b@y.ru''] \<and>
   DAList.lookup (lookup no_clock q_all db_mixed) (js ''a@x.com'')
     = Some \<lparr>e_tags = new_Set [js ''t1''], e_locale = js ''en''\<rparr>"
  by code_simp




lemma length_intersection: "length (intersection xs ys) = card (set xs \<inter> set ys)"
proof -
  have "distinct (uniq (filter (\<lambda>x. x \<in> set ys) xs))"
    by (simp add: uniq_def)
  then have "length (uniq (filter (\<lambda>x. x \<in> set ys) xs)) = card (set (uniq (filter (\<lambda>x. x \<in> set ys) xs)))"
    by (simp only: distinct_card)
  also have "set (uniq (filter (\<lambda>x. x \<in> set ys) xs)) = set xs \<inter> set ys"
    by (auto simp: set_uniq)
  finally show ?thesis
    by (simp add: intersection_def)
qed

lemma tags_skip_iff:
  "tags_skip q rec \<longleftrightarrow> \<not> set (Array_from (q_tags q)) \<subseteq> set (Array_from (rec_tags rec))"
proof -
  let ?I = "set (Array_from (q_tags q))" and ?R = "set (Array_from (rec_tags rec))"
  have s: "size_Set (q_tags q) = card ?I"
    by (simp add: size_Set.rep_eq distinct_card Array_from_distinct)
  show ?thesis
  proof (cases "?I \<subseteq> ?R")
    case True
    then have "?R \<inter> ?I = ?I" by auto
    then show ?thesis
      using True s by (simp add: tags_skip_def length_intersection)
  next
    case False
    then have "?R \<inter> ?I \<subset> ?I" by auto
    then have "card (?R \<inter> ?I) < card ?I"
      by (intro psubset_card_mono) simp_all
    then show ?thesis
      using False s by (simp add: tags_skip_def length_intersection)
  qed
qed

text \<open>
  Claim C7, for a directory without the key \<open>__proto__\<close>: no address is spelled so, and
  under that key the assignment \<^verbatim>\<open>result[email] = ...\<close> would set the prototype of the
  result and add no entry. A query with an empty tag set, no locale, no status filter and no
  recency threshold returns an entry for exactly the records whose status is not
  \<^verbatim>\<open>broken\<close>. For every query, an address is in the result exactly when its record
  holds every requested tag and passes the status, recency and locale tests; so a query
  with tags and no other filter returns exactly the records that are not \<^verbatim>\<open>broken\<close> and
  whose tag set includes the requested one.
\<close>

theorem lookup_empty_query_and_tag_gate:
  assumes "js ''__proto__'' \<notin> set (keys db)"
  shows "(size_Set (q_tags q) = 0 \<and> q_locale q = None \<and> q_statusOnly q = None \<and> q_coldDays q = None \<longrightarrow>
      (\<forall>email. DAList.lookup (lookup days q db) email =
         (case DAList.lookup db email of
            None \<Rightarrow> None
          | Some rec \<Rightarrow>
              if rec_status rec = Some Broken then None
              else Some \<lparr>e_tags = new_Set (Array_from (rec_tags rec)), e_locale = calculatedLocale email rec\<rparr>)))
   \<and> (\<forall>email. email \<in> set (keys (lookup days q db)) \<longleftrightarrow>
         (\<exists>rec. DAList.lookup db email = Some rec \<and>
                set (Array_from (q_tags q)) \<subseteq> set (Array_from (rec_tags rec)) \<and>
                \<not> status_skip q rec \<and> \<not> cold_skip days q rec \<and> \<not> locale_skip q email rec))
   \<and> (q_locale q = None \<and> q_statusOnly q = None \<and> q_coldDays q = None \<longrightarrow>
        set (keys (lookup days q db)) =
          {email. \<exists>rec. DAList.lookup db email = Some rec \<and> rec_status rec \<noteq> Some Broken \<and>
                    set (Array_from (q_tags q)) \<subseteq> set (Array_from (rec_tags rec))})"
proof (intro conjI impI allI)
  fix email
  assume a: "size_Set (q_tags q) = 0 \<and> q_locale q = None \<and> q_statusOnly q = None \<and> q_coldDays q = None"
  then have "Array_from (q_tags q) = []"
    by (simp add: size_Set.rep_eq)
  then have t: "\<not> tags_skip q r" for r
    by (simp add: tags_skip_iff)
  have "\<not> cold_skip days q r" "\<not> locale_skip q email r" "status_skip q r \<longleftrightarrow> rec_status r = Some Broken" for r
    using a by (simp_all add: cold_skip_def locale_skip_def status_skip_def)
  then show "DAList.lookup (lookup days q db) email =
         (case DAList.lookup db email of
            None \<Rightarrow> None
          | Some rec \<Rightarrow>
              if rec_status rec = Some Broken then None
              else Some \<lparr>e_tags = new_Set (Array_from (rec_tags rec)), e_locale = calculatedLocale email rec\<rparr>)"
    using t by (simp add: lookup_entry entry_of_def split: option.splits)
next
  fix email
  show "email \<in> set (keys (lookup days q db)) \<longleftrightarrow>
         (\<exists>rec. DAList.lookup db email = Some rec \<and>
                set (Array_from (q_tags q)) \<subseteq> set (Array_from (rec_tags rec)) \<and>
                \<not> status_skip q rec \<and> \<not> cold_skip days q rec \<and> \<not> locale_skip q email rec)"
    by (auto simp: in_lookup_iff tags_skip_iff)
next
  assume a: "q_locale q = None \<and> q_statusOnly q = None \<and> q_coldDays q = None"
  have "\<not> cold_skip days q r" "\<not> locale_skip q email r" "status_skip q r \<longleftrightarrow> rec_status r = Some Broken" for r email
    using a by (simp_all add: cold_skip_def locale_skip_def status_skip_def)
  then show "set (keys (lookup days q db)) =
          {email. \<exists>rec. DAList.lookup db email = Some rec \<and> rec_status rec \<noteq> Some Broken \<and>
                    set (Array_from (q_tags q)) \<subseteq> set (Array_from (rec_tags rec))}"
    by (auto simp: in_lookup_iff tags_skip_iff)
qed

lemma keys_db_tagged: "keys db_tagged = [js ''a@x.com'', js ''b@y.ru'']"
  by (simp add: db_tagged_def keys_update_list keys_empty js_eq_iff)

lemma keys_db_mixed: "keys db_mixed = [js ''a@x.com'', js ''b@y.ru'']"
  by (simp add: db_mixed_def keys_update_list keys_empty js_eq_iff)

lemma lookup_db_tagged: "keys (lookup no_clock q_t1 db_tagged) = [js ''a@x.com'']"
  by code_simp

lemma tagged_sets:
  "{email. \<exists>rec. DAList.lookup db_tagged email = Some rec \<and> rec_status rec \<noteq> Some Broken \<and>
        set (Array_from (q_tags q_t1)) \<subseteq> set (Array_from (rec_tags rec))} = {js ''a@x.com''}"
  by (auto simp: db_tagged_def DAList.lookup_update q_t1_def new_Set.rep_eq uniq_def new_record_def js_eq_iff split: if_splits)

theorem lookup_empty_query_and_tag_gate_witness:
  "js ''__proto__'' \<notin> set (keys db_tagged) \<and> js ''__proto__'' \<notin> set (keys db_mixed) \<and>
   q_locale q_t1 = None \<and> q_statusOnly q_t1 = None \<and> q_coldDays q_t1 = None \<and>
   set (keys (lookup no_clock q_t1 db_tagged)) =
     {email. \<exists>rec. DAList.lookup db_tagged email = Some rec \<and> rec_status rec \<noteq> Some Broken \<and>
        set (Array_from (q_tags q_t1)) \<subseteq> set (Array_from (rec_tags rec))} \<and>
   keys (lookup no_clock q_t1 db_tagged) = [js ''a@x.com''] \<and>
   {email. \<exists>rec. DAList.lookup db_tagged email = Some rec \<and> rec_status rec \<noteq> Some Broken \<and>
        set (Array_from (q_tags q_t1)) \<subseteq> set (Array_from (rec_tags rec))} = {js ''a@x.com''} \<and>
   size_Set (q_tags q_all) = 0 \<and> q_locale q_all = None \<and> q_statusOnly q_all = None \<and> q_coldDays q_all = None \<and>
   DAList.lookup (lookup no_clock q_all db_mixed) (js ''b@y.ru'') = None \<and>
   DAList.lookup (lookup no_clock q_all db_mixed) (js ''a@x.com'')
     = Some \<lparr>e_tags = new_Set [js ''t1''], e_locale = js ''en''\<rparr>"
proof -
  have p1: "js ''__proto__'' \<notin> set (keys db_tagged)" and p2: "js ''__proto__'' \<notin> set (keys db_mixed)"
    by (simp_all add: keys_db_tagged keys_db_mixed js_eq_iff)
  note t1 = lookup_empty_query_and_tag_gate[OF p1, of q_t1 no_clock]
  note t2 = lookup_empty_query_and_tag_gate[OF p2, of q_all no_clock]
  have q1: "q_locale q_t1 = None \<and> q_statusOnly q_t1 = None \<and> q_coldDays q_t1 = None"
    by (simp add: q_t1_def)
  have q2: "size_Set (q_tags q_all) = 0 \<and> q_locale q_all = None \<and> q_statusOnly q_all = None \<and> q_coldDays q_all = None"
    by (simp add: q_all_def size_Set.rep_eq new_Set.rep_eq uniq_def)
  from t1 q1 have a: "set (keys (lookup no_clock q_t1 db_tagged)) =
     {email. \<exists>rec. DAList.lookup db_tagged email = Some rec \<and> rec_status rec \<noteq> Some Broken \<and>
        set (Array_from (q_tags q_t1)) \<subseteq> set (Array_from (rec_tags rec))}"
    by blast
  from t2 q2 have b: "DAList.lookup (lookup no_clock q_all db_mixed) (js ''b@y.ru'') = None"
    by (simp add: db_mixed_def DAList.lookup_update js_eq_iff)
  show ?thesis
    using p1 p2 q1 q2 a lookup_db_tagged tagged_sets b lookup_db_mixed by simp
qed

section \<open>pageAll\<close>

lemma pageAll_loop_drains:
  "page_at get fn limit n url w = Some p \<Longrightarrow> items p = [] \<Longrightarrow>
     (\<exists>w'. pageAll_loop get fn limit result url w =
        Some (Inr (result @ concat (map (items_at get fn limit url w) [0..<n])), w'))
     \<and> (\<forall>i<n. items_at get fn limit url w i \<noteq> [])"
proof (induction n arbitrary: result url w)
  case 0
  then obtain w' where "fetch get fn limit url w = (Inr p, w')"
    by (auto split: prod.splits sum.splits)
  then show ?case
    using "0.prems"(2) by (subst pageAll_loop.simps) simp
next
  case (Suc n)
  from Suc.prems(1) obtain r w1 nxt where f: "fetch get fn limit url w = (Inr r, w1)"
    and ne: "items r \<noteq> []" and nx: "paging_next r = Some nxt"
    and rest: "page_at get fn limit n (split_1 api_prefix nxt) w1 = Some p"
    by (auto split: prod.splits sum.splits if_splits option.splits)
  let ?url1 = "split_1 api_prefix nxt"
  have shift: "items_at get fn limit url w (Suc i) = items_at get fn limit ?url1 w1 i" for i
    using f ne nx by (simp add: items_at_def)
  have first: "items_at get fn limit url w 0 = items r"
    using f by (simp add: items_at_def)
  from Suc.IH[OF rest Suc.prems(2), of "result @ items r"]
  obtain w' where loop: "pageAll_loop get fn limit (result @ items r) ?url1 w1 =
        Some (Inr ((result @ items r) @ concat (map (items_at get fn limit ?url1 w1) [0..<n])), w')"
    and non: "\<forall>i<n. items_at get fn limit ?url1 w1 i \<noteq> []"
    by blast
  have "map (items_at get fn limit url w) [0..<Suc n]
        = items r # map (items_at get fn limit ?url1 w1) [0..<n]"
    using first shift by (simp add: upt_conv_Cons map_Suc_upt[symmetric] del: upt_Suc)
  then have c: "concat (map (items_at get fn limit url w) [0..<Suc n])
        = items r @ concat (map (items_at get fn limit ?url1 w1) [0..<n])"
    by simp
  have "pageAll_loop get fn limit result url w =
        Some (Inr (result @ concat (map (items_at get fn limit url w) [0..<Suc n])), w')"
    using f ne nx loop unfolding c by (subst pageAll_loop.simps) simp
  moreover have "\<forall>i<Suc n. items_at get fn limit url w i \<noteq> []"
  proof (intro allI impI)
    fix i assume "i < Suc n"
    then show "items_at get fn limit url w i \<noteq> []"
      using first ne shift non by (cases i) simp_all
  qed
  ultimately show ?case by blast
qed

text \<open>
  Claim C8. When the page of some turn \<open>n\<close> has no items, \<^verbatim>\<open>pageAll\<close> returns, and what it
  returns is the concatenation, in the order of the turns, of the items of the pages of the
  turns before \<open>n\<close>, none of which is empty: \<open>n\<close> is the first empty page. The cursor of
  the empty page plays no part.
\<close>

theorem pageAll_stops_at_first_empty_page:
  assumes "page_at get fn limit n None w = Some p" and "items p = []"
  shows "(\<exists>w'. pageAll get fn limit w =
            Some (Inr (concat (map (items_at get fn limit None w) [0..<n])), w'))
         \<and> (\<forall>i<n. items_at get fn limit None w i \<noteq> [])"
  using pageAll_loop_drains[OF assms, of "[]"] by (simp add: pageAll_def)

lemma pageAll_script:
  "pageAll (\<lambda>url. scripted script) (\<lambda>limit. scripted script) 100 0 = Some (Inr [1, 2, 3], 3) \<and>
   page_at (\<lambda>url. scripted script) (\<lambda>limit. scripted script) 100 2 None 0 = Some (script ! 2) \<and>
   items (script ! 2) = [] \<and> paging_next (script ! 2) \<noteq> None"
  by code_simp

theorem pageAll_stops_at_first_empty_page_witness:
  "page_at (\<lambda>url. scripted script) (\<lambda>limit. scripted script) 100 2 None 0 = Some (script ! 2) \<and>
   items (script ! 2) = [] \<and> paging_next (script ! 2) \<noteq> None \<and>
   pageAll (\<lambda>url. scripted script) (\<lambda>limit. scripted script) 100 0 = Some (Inr [1, 2, 3], 3) \<and>
   concat (map (items_at (\<lambda>url. scripted script) (\<lambda>limit. scripted script) 100 None 0) [0..<2]) = [1, 2, 3]"
  using pageAll_stops_at_first_empty_page[of "\<lambda>url. scripted script" "\<lambda>limit. scripted script" 100 2 0 "script ! 2"]
    pageAll_script by simp

section \<open>load\<close>

lemma string_of_cases: "string_of x \<noteq> Untyped \<Longrightarrow> \<exists>s. string_of x = Typed s"
  by (cases x rule: string_of.cases) simp_all

lemma status_of_cases: "status_of x \<noteq> Untyped \<Longrightarrow> \<exists>s. status_of x = Typed s"
  by (cases x rule: status_of.cases) (simp_all split: if_splits)

lemma the_JStr_map: "map ((\<lambda>x. the (the_JStr x)) \<circ> JStr) ts = ts"
  by (induction ts) simp_all

lemma load_record_format:
  assumes "record_format v"
  shows "\<exists>rec. load_record strict v = Typed rec"
proof -
  from assms obtain ms where v: "v = JObj ms"
    by (cases v) (simp_all add: record_format_def)
  with assms have f: "(case map_of ms (js ''tags'') of
             Some (JArr xs) \<Rightarrow> list_all (\<lambda>x. the_JStr x \<noteq> None) xs
           | _ \<Rightarrow> False)"
      and l: "string_of (map_of ms (js ''locale'')) \<noteq> Untyped"
      and s: "status_of (map_of ms (js ''status'')) \<noteq> Untyped"
      and d: "string_of (map_of ms (js ''lastDelivered'')) \<noteq> Untyped"
    by (simp_all add: record_format_def)
  from f obtain x where x: "map_of ms (js ''tags'') = Some x"
    by (cases "map_of ms (js ''tags'')") simp_all
  with f obtain xs where xs: "x = JArr xs"
    by (cases x) simp_all
  have t: "map_of ms (js ''tags'') = Some (JArr xs)"
    using x xs by simp
  have a: "list_all (\<lambda>x. the_JStr x \<noteq> None) xs"
    using f t by simp
  from string_of_cases[OF l] string_of_cases[OF d] status_of_cases[OF s]
  obtain lo st de where "string_of (map_of ms (js ''locale'')) = Typed lo"
      "status_of (map_of ms (js ''status'')) = Typed st" "string_of (map_of ms (js ''lastDelivered'')) = Typed de"
    by blast
  then show ?thesis
    using v t a by (simp add: load_object_def)
qed

lemma load_record_tags:
  assumes "load_record strict (JObj ms) = Typed rec" and "map_of ms (js ''tags'') = Some (JArr (map JStr ts))"
  shows "rec_tags rec = new_Set ts"
proof -
  have "list_all (\<lambda>x. the_JStr x \<noteq> None) (map JStr ts)"
    by (induction ts) simp_all
  then have "tags_of (map_of ms (js ''tags'')) = Typed (new_Set ts)"
    using assms(2) by (simp add: the_JStr_map)
  then show ?thesis
    using assms(1) by (auto simp: load_object_def split: outcome.splits)
qed

lemma load_members_total:
  "list_all (\<lambda>(email, v). record_format v) kvs \<Longrightarrow> \<exists>recs. load_members strict kvs = Typed recs"
proof (induction kvs)
  case Nil
  show ?case by simp
next
  case (Cons kv kvs)
  obtain email v where kv: "kv = (email, v)" by (cases kv)
  from Cons.prems kv obtain rec where "load_record strict v = Typed rec"
    using load_record_format by auto
  moreover from Cons obtain recs where "load_members strict kvs = Typed recs"
    by auto
  ultimately show ?case
    using kv by simp
qed

lemma load_members_records:
  "load_members strict kvs = Typed recs \<Longrightarrow>
     map fst recs = map fst kvs \<and>
     (\<forall>email v. map_of kvs email = Some v \<longrightarrow> (\<exists>rec. map_of recs email = Some rec \<and> load_record strict v = Typed rec))"
proof (induction kvs arbitrary: recs)
  case Nil
  then show ?case by simp
next
  case (Cons kv kvs)
  obtain email v where kv: "kv = (email, v)" by (cases kv)
  from Cons.prems kv obtain rec recs' where r: "load_record strict v = Typed rec"
      and rs: "load_members strict kvs = Typed recs'" and recs: "recs = (email, rec) # recs'"
    by (auto split: outcome.splits)
  show ?case
    using Cons.IH[OF rs] r recs kv by auto
qed

lemma directory_of_fold:
  "distinct (map fst recs) \<Longrightarrow>
     DAList.lookup (fold (\<lambda>(email, rec). DAList.update email rec) recs db) k =
       (case map_of recs k of Some rec \<Rightarrow> Some rec | None \<Rightarrow> DAList.lookup db k)"
proof (induction recs arbitrary: db)
  case Nil
  show ?case by simp
next
  case (Cons kr recs)
  obtain email rec where kr: "kr = (email, rec)" by (cases kr)
  have "map_of recs email = None"
    using Cons.prems kr by (simp add: map_of_eq_None_iff)
  then show ?case
    using Cons kr by (auto simp: DAList.lookup_update split: option.splits)
qed

lemma directory_of_lookup:
  "distinct (map fst recs) \<Longrightarrow> DAList.lookup (directory_of recs) k = map_of recs k"
  by (simp add: directory_of_def directory_of_fold split: option.splits)

text \<open>
  Claim C9, as the code has it. When the read or the parse fails, \<^verbatim>\<open>load\<close> completes and
  leaves the empty directory. When the file parses to an object in the persisted format,
  \<^verbatim>\<open>load\<close> completes with a directory in which the tags of every record are the set of
  the elements of its persisted tag array.
\<close>

theorem load_survives_read_and_parse_failure:
  "load strict ReadFails = Typed DAList.empty \<and> load strict ParseFails = Typed DAList.empty \<and>
   (persisted_format kvs \<longrightarrow>
      (\<exists>db. load strict (Parses (JObj kvs)) = Typed db \<and>
         (\<forall>email ms ts. map_of kvs email = Some (JObj ms) \<and> map_of ms (js ''tags'') = Some (JArr (map JStr ts)) \<longrightarrow>
            (\<exists>rec. DAList.lookup db email = Some rec \<and> rec_tags rec = new_Set ts))))"
proof (intro conjI impI)
  show "load strict ReadFails = Typed DAList.empty" "load strict ParseFails = Typed DAList.empty"
    by (simp_all add: load_def)
next
  assume pf: "persisted_format kvs"
  then obtain recs where recs: "load_members strict kvs = Typed recs"
    using load_members_total by (auto simp: persisted_format_def)
  note m = load_members_records[OF recs]
  have d: "distinct (map fst recs)"
    using m pf by (simp add: persisted_format_def)
  have l: "load strict (Parses (JObj kvs)) = Typed (directory_of recs)"
    using recs by (simp add: load_def)
  have "\<exists>rec. DAList.lookup (directory_of recs) email = Some rec \<and> rec_tags rec = new_Set ts"
    if "map_of kvs email = Some (JObj ms)" "map_of ms (js ''tags'') = Some (JArr (map JStr ts))" for email ms ts
  proof -
    from m that(1) obtain rec where "map_of recs email = Some rec" "load_record strict (JObj ms) = Typed rec"
      by blast
    then show ?thesis
      using load_record_tags[OF _ that(2)] directory_of_lookup[OF d] by simp
  qed
  with l show "\<exists>db. load strict (Parses (JObj kvs)) = Typed db \<and>
         (\<forall>email ms ts. map_of kvs email = Some (JObj ms) \<and> map_of ms (js ''tags'') = Some (JArr (map JStr ts)) \<longrightarrow>
            (\<exists>rec. DAList.lookup db email = Some rec \<and> rec_tags rec = new_Set ts))"
    by blast
qed

text \<open>
  \<^verbatim>\<open>load\<close> can throw: the loop that follows the \<^verbatim>\<open>try\<close> block throws a \<^verbatim>\<open>TypeError\<close>
  on a file that parses to an object with a \<^verbatim>\<open>null\<close> record, and on one whose tags are an
  object and not an array.
\<close>

theorem load_throws_counterexample:
  "load True (Parses file_null) = Throws TypeError \<and> load False (Parses file_null) = Throws TypeError \<and>
   load True (Parses file_saved) = Throws TypeError \<and> load False (Parses file_saved) = Throws TypeError"
  by (simp add: load_def file_null_def file_saved_def load_object_def js_eq_iff)

lemma file_ok_format: "persisted_format file_ok"
  by (simp add: persisted_format_def file_ok_def members_ok_def record_format_def js_eq_iff)

lemma file_ok_tags:
  "map_of file_ok (js ''a@x.com'') = Some (JObj members_ok) \<and>
   map_of members_ok (js ''tags'') = Some (JArr (map JStr [js ''t1'', js ''t2'', js ''t1'']))"
  by (simp add: file_ok_def members_ok_def js_eq_iff)

theorem load_survives_read_and_parse_failure_witness:
  "persisted_format file_ok \<and>
   map_of file_ok (js ''a@x.com'') = Some (JObj members_ok) \<and>
   map_of members_ok (js ''tags'') = Some (JArr (map JStr [js ''t1'', js ''t2'', js ''t1''])) \<and>
   (\<exists>db rec. load True (Parses (JObj file_ok)) = Typed db \<and> DAList.lookup db (js ''a@x.com'') = Some rec \<and>
       rec_tags rec = new_Set [js ''t1'', js ''t2'', js ''t1''])"
  using load_survives_read_and_parse_failure[of True file_ok] file_ok_format file_ok_tags
  by blast

section \<open>lookup over a store of objects\<close>

lemma new_Set_Array_from: "new_Set (Array_from s) = s"
  by (simp add: Array_from_inject[symmetric] new_Set.rep_eq uniq_distinct_id Array_from_distinct)

lemma calculatedLocale_deref:
  "calculatedLocale email (deref h p) =
     (if stored_locale (record_at h p) = None \<or> stored_locale (record_at h p) = Some []
      then (if suffix (js ''.ru'') email then js ''ru'' else js ''en'')
      else the (stored_locale (record_at h p)))"
  by (cases "stored_locale (record_at h p)")
    (simp_all add: calculatedLocale_def deref_def truthy_def guessEmailLocale_def)

lemma lookup_store_step_cases:
  assumes "lookup_store_step days q email (result, h) = (result', h')"
  shows "(result' = result \<and> h' = h) \<or>
         (\<exists>p. DAList.lookup (directory h) email = Some p \<and>
              result' = DAList.update email \<lparr>entry_ref = fresh h, entry_locale = calculatedLocale email (deref h p)\<rparr> result \<and>
              h' = h\<lparr>set_at := (set_at h)(fresh h := set_at h (tags_ref (record_at h p))), fresh := Suc (fresh h)\<rparr>)"
proof (cases "DAList.lookup (directory h) email")
  case None
  with assms show ?thesis
    by (auto simp: lookup_store_step_def)
next
  case (Some p)
  let ?rec = "deref h p"
  show ?thesis
  proof (cases "status_skip q ?rec \<or> cold_skip days q ?rec \<or> tags_skip q ?rec \<or> locale_skip q email ?rec")
    case True
    with assms Some show ?thesis
      by (auto simp: lookup_store_step_def Let_def split: if_splits)
  next
    case False
    have "rec_tags ?rec = set_at h (tags_ref (record_at h p))"
      by (simp add: deref_def)
    with False assms Some show ?thesis
      by (auto simp: lookup_store_step_def Let_def alloc_def new_Set_Array_from)
  qed
qed

lemma lookup_store_step_spec:
  assumes "below result h" "separate result" "lookup_store_step days q email (result, h) = (result', h')"
  shows "directory h' = directory h \<and> record_at h' = record_at h \<and> fresh h \<le> fresh h' \<and>
         (\<forall>p<fresh h. set_at h' p = set_at h p) \<and> below result' h' \<and> separate result' \<and>
         (\<forall>k e. DAList.lookup result' k = Some e \<longrightarrow>
            DAList.lookup result k = Some e \<or>
            (\<exists>p. DAList.lookup (directory h) k = Some p \<and> copy_of h h' k p e))"
  using lookup_store_step_cases[OF assms(3)]
proof (elim disjE exE conjE)
  assume "result' = result" "h' = h"
  with assms(1,2) show ?thesis by simp
next
  fix p
  assume p: "DAList.lookup (directory h) email = Some p"
    and r': "result' = DAList.update email \<lparr>entry_ref = fresh h, entry_locale = calculatedLocale email (deref h p)\<rparr> result"
    and h': "h' = h\<lparr>set_at := (set_at h)(fresh h := set_at h (tags_ref (record_at h p))), fresh := Suc (fresh h)\<rparr>"
  have b: "below result' h'"
    using assms(1) by (auto simp: below_def r' h' DAList.lookup_update less_Suc_eq)
  have old_lt: "entry_ref e < fresh h" if "DAList.lookup result k = Some e" for k e
    using assms(1) that by (simp add: below_def)
  have s: "separate result'"
    unfolding separate_def
  proof (intro allI impI, elim conjE)
    fix k e k' e'
    assume 1: "DAList.lookup result' k = Some e" and 2: "DAList.lookup result' k' = Some e'" and 3: "k' \<noteq> k"
    show "entry_ref e' \<noteq> entry_ref e"
    proof (cases "k = email")
      case True
      then have "entry_ref e = fresh h"
        using 1 by (auto simp: r' DAList.lookup_update)
      moreover have "DAList.lookup result k' = Some e'"
        using 2 3 True by (simp add: r' DAList.lookup_update)
      ultimately show ?thesis
        using old_lt[of k' e'] by simp
    next
      case False
      then have a: "DAList.lookup result k = Some e"
        using 1 by (simp add: r' DAList.lookup_update)
      show ?thesis
      proof (cases "k' = email")
        case True
        then have "entry_ref e' = fresh h"
          using 2 by (auto simp: r' DAList.lookup_update)
        then show ?thesis
          using old_lt[OF a] by simp
      next
        case False
        then have "DAList.lookup result k' = Some e'"
          using 2 by (simp add: r' DAList.lookup_update)
        then show ?thesis
          using a 3 assms(2) unfolding separate_def by blast
      qed
    qed
  qed
  have c: "DAList.lookup result k = Some e \<or> (\<exists>p. DAList.lookup (directory h) k = Some p \<and> copy_of h h' k p e)"
    if "DAList.lookup result' k = Some e" for k e
    using that p by (auto simp: r' h' DAList.lookup_update copy_of_def calculatedLocale_deref split: if_splits)
  from b s c show ?thesis
    by (simp add: h')
qed

lemma copy_of_mono:
  assumes "copy_of h1 h' k p e" "fresh h \<le> fresh h1" "\<forall>p<fresh h. set_at h1 p = set_at h p"
    "record_at h1 = record_at h" "tags_ref (record_at h p) < fresh h"
  shows "copy_of h h' k p e"
  using assms by (auto simp: copy_of_def)

lemma copy_of_later:
  assumes "copy_of h h1 k p e" "fresh h1 \<le> fresh h'" "\<forall>p<fresh h1. set_at h' p = set_at h1 p"
  shows "copy_of h h' k p e"
  using assms by (auto simp: copy_of_def)

lemma allocated_later:
  assumes "allocated h" "directory h1 = directory h" "record_at h1 = record_at h" "fresh h \<le> fresh h1"
  shows "allocated h1"
  using assms by (fastforce simp: allocated_def)

lemma lookup_store_fold:
  assumes "allocated h" "below result h" "separate result"
    "fold (lookup_store_step days q) ks (result, h) = (result', h')"
  shows "directory h' = directory h \<and> record_at h' = record_at h \<and> fresh h \<le> fresh h' \<and>
         (\<forall>p<fresh h. set_at h' p = set_at h p) \<and> below result' h' \<and> separate result' \<and>
         (\<forall>k e. DAList.lookup result' k = Some e \<longrightarrow>
            DAList.lookup result k = Some e \<or>
            (\<exists>p. DAList.lookup (directory h) k = Some p \<and> copy_of h h' k p e))"
  using assms
proof (induction ks arbitrary: result h)
  case Nil
  then show ?case by simp
next
  case (Cons email ks)
  obtain result1 h1 where step: "lookup_store_step days q email (result, h) = (result1, h1)"
    by (cases "lookup_store_step days q email (result, h)")
  note s = lookup_store_step_spec[OF Cons.prems(2) Cons.prems(3) step]
  have a1: "allocated h1"
    using allocated_later[OF Cons.prems(1)] s by blast
  have b1: "below result1 h1" and s1: "separate result1"
    using s by blast+
  from Cons.prems(4) step have "fold (lookup_store_step days q) ks (result1, h1) = (result', h')"
    by simp
  note i = Cons.IH[OF a1 b1 s1 this]
  have d: "directory h' = directory h" "record_at h' = record_at h"
    using s i by simp_all
  have f: "fresh h \<le> fresh h'"
    using s i by simp
  have u: "\<forall>p<fresh h. set_at h' p = set_at h p"
    using s i by auto
  have "DAList.lookup result k = Some e \<or> (\<exists>p. DAList.lookup (directory h) k = Some p \<and> copy_of h h' k p e)"
    if e: "DAList.lookup result' k = Some e" for k e
  proof -
    from i e consider (old) "DAList.lookup result1 k = Some e"
      | (new) p where "DAList.lookup (directory h1) k = Some p" "copy_of h1 h' k p e"
      by blast
    then show ?thesis
    proof cases
      case old
      with s consider "DAList.lookup result k = Some e"
        | p where "DAList.lookup (directory h) k = Some p" "copy_of h h1 k p e"
        by blast
      then show ?thesis
        using copy_of_later[of h h1 k _ e h'] i by cases auto
    next
      case new
      then have l: "DAList.lookup (directory h) k = Some p"
        using s by simp
      then have "tags_ref (record_at h p) < fresh h"
        using Cons.prems(1) by (simp add: allocated_def)
      then have "copy_of h h' k p e"
        using copy_of_mono[OF new(2)] s by simp
      with l show ?thesis by blast
    qed
  qed
  with d f u i show ?case by blast
qed

lemma lookup_map_values: "DAList.lookup (map_values f db) k = map_option f (DAList.lookup db k)"
  by transfer (simp add: map_of_map)

lemma keys_map_values: "keys (map_values f db) = keys db"
  unfolding keys_def by transfer (simp add: comp_def split_def)

lemma entry_of_view:
  "entry_of days q (view h) k =
     (case DAList.lookup (directory h) k of
        None \<Rightarrow> None
      | Some p \<Rightarrow>
          if status_skip q (deref h p) \<or> cold_skip days q (deref h p) \<or> tags_skip q (deref h p)
             \<or> locale_skip q k (deref h p) then None
          else Some \<lparr>e_tags = set_at h (tags_ref (record_at h p)), e_locale = calculatedLocale k (deref h p)\<rparr>)"
proof (cases "DAList.lookup (directory h) k")
  case None
  then show ?thesis
    by (simp add: entry_of_def view_def lookup_map_values)
next
  case (Some p)
  have "rec_tags (deref h p) = set_at h (tags_ref (record_at h p))"
    by (simp add: deref_def)
  with Some show ?thesis
    by (simp add: entry_of_def view_def lookup_map_values new_Set_Array_from)
qed

lemma entry_of_view_later:
  assumes "allocated h" "directory h1 = directory h" "record_at h1 = record_at h"
    "\<forall>p<fresh h. set_at h1 p = set_at h p"
  shows "entry_of days q (view h1) k = entry_of days q (view h) k"
proof (cases "DAList.lookup (directory h) k")
  case None
  then show ?thesis
    using assms(2) by (simp add: entry_of_view)
next
  case (Some p)
  then have "tags_ref (record_at h p) < fresh h"
    using assms(1) by (simp add: allocated_def)
  then have "deref h1 p = deref h p" "set_at h1 (tags_ref (record_at h p)) = set_at h (tags_ref (record_at h p))"
    using assms(3,4) by (simp_all add: deref_def)
  then show ?thesis
    using Some assms(2,3) by (simp add: entry_of_view)
qed

lemma lookup_store_step_view:
  assumes "below result h" "lookup_store_step days q email (result, h) = (result', h')"
  shows "DAList.lookup (map_values (view_entry h') result') k =
              (if k = email \<and> entry_of days q (view h) email \<noteq> None
               then entry_of days q (view h) email
               else DAList.lookup (map_values (view_entry h) result) k)"
proof (cases "DAList.lookup (directory h) email")
  case None
  with assms show ?thesis
    by (auto simp: lookup_store_step_def entry_of_view)
next
  case (Some p)
  let ?rec = "deref h p"
  show ?thesis
  proof (cases "status_skip q ?rec \<or> cold_skip days q ?rec \<or> tags_skip q ?rec \<or> locale_skip q email ?rec")
    case True
    with assms Some have "result' = result" "h' = h"
      by (auto simp: lookup_store_step_def Let_def split: if_splits)
    with Some True show ?thesis
      by (simp add: entry_of_view)
  next
    case False
    have "rec_tags ?rec = set_at h (tags_ref (record_at h p))"
      by (simp add: deref_def)
    with False assms Some
    have r': "result' = DAList.update email \<lparr>entry_ref = fresh h, entry_locale = calculatedLocale email ?rec\<rparr> result"
      and h': "h' = h\<lparr>set_at := (set_at h)(fresh h := set_at h (tags_ref (record_at h p))), fresh := Suc (fresh h)\<rparr>"
      by (auto simp: lookup_store_step_def Let_def alloc_def new_Set_Array_from)
    have old: "map_option (view_entry h') (DAList.lookup result k) = map_option (view_entry h) (DAList.lookup result k)" for k
    proof (cases "DAList.lookup result k")
      case None
      then show ?thesis by simp
    next
      case (Some e)
      then have "entry_ref e < fresh h"
        using assms(1) by (simp add: below_def)
      then show ?thesis
        using Some by (simp add: view_entry_def h')
    qed
    show ?thesis
      using Some False old[of k]
      by (simp add: lookup_map_values entry_of_view r' DAList.lookup_update) (simp add: view_entry_def h')
  qed
qed

lemma lookup_store_fold_view:
  assumes "allocated h" "below result h" "separate result"
    "fold (lookup_store_step days q) ks (result, h) = (result', h')"
  shows "DAList.lookup (map_values (view_entry h') result') k =
           DAList.lookup (fold (lookup_step days q (view h)) ks (map_values (view_entry h) result)) k"
  using assms
proof (induction ks arbitrary: result h)
  case Nil
  then show ?case by simp
next
  case (Cons email ks)
  obtain result1 h1 where step: "lookup_store_step days q email (result, h) = (result1, h1)"
    by (cases "lookup_store_step days q email (result, h)")
  note s = lookup_store_step_spec[OF Cons.prems(2) Cons.prems(3) step]
  note v = lookup_store_step_view[OF Cons.prems(2) step]
  have a1: "allocated h1"
    using allocated_later[OF Cons.prems(1)] s by blast
  have b1: "below result1 h1" and s1: "separate result1"
    using s by blast+
  from Cons.prems(4) step have "fold (lookup_store_step days q) ks (result1, h1) = (result', h')"
    by simp
  from Cons.IH[OF a1 b1 s1 this]
  have i: "DAList.lookup (map_values (view_entry h') result') k =
           DAList.lookup (fold (lookup_step days q (view h1)) ks (map_values (view_entry h1) result1)) k" .
  have e: "entry_of days q (view h1) x = entry_of days q (view h) x" for x
    using entry_of_view_later[OF Cons.prems(1)] s by blast
  let ?E = "entry_of days q (view h)"
  have lhs: "DAList.lookup (map_values (view_entry h') result') k =
      (if k \<in> set ks \<and> ?E k \<noteq> None then ?E k else DAList.lookup (map_values (view_entry h1) result1) k)"
    by (simp only: i lookup_fold e)
  have mid: "DAList.lookup (map_values (view_entry h1) result1) k =
      (if k = email \<and> ?E email \<noteq> None then ?E email else DAList.lookup (map_values (view_entry h) result) k)"
    using v .
  have rhs: "DAList.lookup (fold (lookup_step days q (view h)) (email # ks) (map_values (view_entry h) result)) k =
      (if k \<in> set (email # ks) \<and> ?E k \<noteq> None then ?E k else DAList.lookup (map_values (view_entry h) result) k)"
    by (rule lookup_fold)
  show ?case
    unfolding lhs mid rhs by auto
qed

lemma below_empty: "below DAList.empty h"
  by (simp add: below_def)

lemma separate_empty: "separate DAList.empty"
  by (simp add: separate_def)

text \<open>
  What \<^verbatim>\<open>lookup\<close> over the store returns reads as what \<^verbatim>\<open>lookup\<close> returns on the
  directory that the store holds.
\<close>

lemma lookup_store_refines:
  assumes "allocated h" "lookup_store days q h = (result, h')"
  shows "DAList.lookup (map_values (view_entry h') result) k = DAList.lookup (lookup days q (view h)) k"
proof -
  from lookup_store_fold_view[OF assms(1) below_empty separate_empty assms(2)[unfolded lookup_store_def], of k]
  show ?thesis
    by (simp add: lookup_def view_def keys_map_values lookup_fold lookup_map_values)
qed

text \<open>
  Claim C10, for a directory without the key \<open>__proto__\<close> whose records hold allocated
  sets. \<^verbatim>\<open>lookup\<close> writes neither to the directory nor to a record nor to a set that
  exists: after it the directory has the same keys under the same records, every record
  object has the same fields, every set allocated before has the same elements, and so
  every stored record reads the same tags, locale, status and lastDelivered. The set of an
  entry of the result has the elements of the stored set of the record and is a new
  object: its reference is not allocated before the call, no stored record holds it and no
  other entry holds it. The locale of the entry is the resolved one: the stored locale
  unless that is absent or the empty string, and else \<open>ru\<close> for an address that ends in
  \<open>.ru\<close> and \<open>en\<close> for any other.
\<close>

theorem lookup_store_reads_only:
  assumes "allocated h" and "js ''__proto__'' \<notin> set (keys (directory h))"
    and "lookup_store days q h = (result, h')"
  shows "directory h' = directory h \<and> record_at h' = record_at h \<and> (\<forall>p<fresh h. set_at h' p = set_at h p) \<and>
         (\<forall>email p. DAList.lookup (directory h) email = Some p \<longrightarrow> deref h' p = deref h p) \<and>
         (\<forall>email en. DAList.lookup result email = Some en \<longrightarrow>
            (\<exists>p. DAList.lookup (directory h) email = Some p \<and>
                 fresh h \<le> entry_ref en \<and>
                 set_at h' (entry_ref en) = set_at h (tags_ref (record_at h p)) \<and>
                 entry_locale en =
                   (if stored_locale (record_at h p) = None \<or> stored_locale (record_at h p) = Some []
                    then (if suffix (js ''.ru'') email then js ''ru'' else js ''en'')
                    else the (stored_locale (record_at h p)))) \<and>
            (\<forall>email' p'. DAList.lookup (directory h) email' = Some p' \<longrightarrow> entry_ref en \<noteq> tags_ref (record_at h p')) \<and>
            (\<forall>email' en'. DAList.lookup result email' = Some en' \<and> email' \<noteq> email \<longrightarrow> entry_ref en' \<noteq> entry_ref en))"
proof -
  note f = lookup_store_fold[OF assms(1) below_empty separate_empty assms(3)[unfolded lookup_store_def]]
  have d: "directory h' = directory h" "record_at h' = record_at h" "\<forall>p<fresh h. set_at h' p = set_at h p"
    using f by blast+
  have a: "deref h' p = deref h p" if "DAList.lookup (directory h) email = Some p" for email p
  proof -
    have "tags_ref (record_at h p) < fresh h"
      using that assms(1) by (simp add: allocated_def)
    then show ?thesis
      using d by (simp add: deref_def)
  qed
  have sep: "separate result"
    using f by blast
  have b: "(\<exists>p. DAList.lookup (directory h) email = Some p \<and>
                 fresh h \<le> entry_ref en \<and>
                 set_at h' (entry_ref en) = set_at h (tags_ref (record_at h p)) \<and>
                 entry_locale en =
                   (if stored_locale (record_at h p) = None \<or> stored_locale (record_at h p) = Some []
                    then (if suffix (js ''.ru'') email then js ''ru'' else js ''en'')
                    else the (stored_locale (record_at h p)))) \<and>
            (\<forall>email' p'. DAList.lookup (directory h) email' = Some p' \<longrightarrow> entry_ref en \<noteq> tags_ref (record_at h p')) \<and>
            (\<forall>email' en'. DAList.lookup result email' = Some en' \<and> email' \<noteq> email \<longrightarrow> entry_ref en' \<noteq> entry_ref en)"
    if en: "DAList.lookup result email = Some en" for email en
  proof -
    from f en have "DAList.lookup DAList.empty email = Some en \<or>
        (\<exists>p. DAList.lookup (directory h) email = Some p \<and> copy_of h h' email p en)"
      by blast
    then obtain p where p: "DAList.lookup (directory h) email = Some p" "copy_of h h' email p en"
      by auto
    have n: "entry_ref en \<noteq> tags_ref (record_at h p')" if "DAList.lookup (directory h) email' = Some p'" for email' p'
    proof -
      have "tags_ref (record_at h p') < fresh h"
        using that assms(1) by (simp add: allocated_def)
      moreover have "fresh h \<le> entry_ref en"
        using p(2) by (simp add: copy_of_def)
      ultimately show ?thesis by simp
    qed
    have m: "entry_ref en' \<noteq> entry_ref en" if "DAList.lookup result email' = Some en' \<and> email' \<noteq> email" for email' en'
      using sep en that unfolding separate_def by blast
    from p n m show ?thesis
      unfolding copy_of_def by blast
  qed
  from d a b show ?thesis by blast
qed

lemma guess_a: "guessEmailLocale (js ''a@x.com'') = js ''en''"
  by code_simp

lemma allocated_store0: "allocated store0"
  by (simp add: allocated_def store0_def stored_a_def)

lemma keys_store0: "keys (directory store0) = [js ''a@x.com'']"
  by (simp add: store0_def keys_update_list keys_empty)

lemma lookup_store_store0:
  "lookup_store no_clock q_all store0 = (DAList.update (js ''a@x.com'') entry_a DAList.empty, store1)"
  by (simp add: lookup_store_def keys_store0 lookup_store_step_def)
    (simp add: store0_def store1_def stored_a_def entry_a_def deref_def q_all_def
      status_skip_def cold_skip_def tags_skip_iff locale_skip_def calculatedLocale_def truthy_def
      guess_a alloc_def new_Set_Array_from new_Set.rep_eq uniq_def)

theorem lookup_store_reads_only_witness:
  "allocated store0 \<and> js ''__proto__'' \<notin> set (keys (directory store0)) \<and>
   lookup_store no_clock q_all store0 = (DAList.update (js ''a@x.com'') entry_a DAList.empty, store1) \<and>
   directory store1 = directory store0 \<and> record_at store1 = record_at store0 \<and>
   DAList.lookup (directory store0) (js ''a@x.com'') = Some 0 \<and>
   deref store1 0 = deref store0 0 \<and>
   set_at store1 (entry_ref entry_a) = set_at store0 (tags_ref (record_at store0 0)) \<and>
   entry_ref entry_a \<noteq> tags_ref (record_at store0 0) \<and>
   entry_locale entry_a = js ''en''"
proof -
  have k: "js ''__proto__'' \<notin> set (keys (directory store0))"
    by (simp add: keys_store0 js_eq_iff)
  note t = lookup_store_reads_only[OF allocated_store0 k lookup_store_store0]
  have l: "DAList.lookup (directory store0) (js ''a@x.com'') = Some 0"
    by (simp add: store0_def)
  have e: "DAList.lookup (DAList.update (js ''a@x.com'') entry_a DAList.empty) (js ''a@x.com'') = Some entry_a"
    by simp
  from t have d: "directory store1 = directory store0" "record_at store1 = record_at store0"
    by blast+
  from t l have a: "deref store1 0 = deref store0 0"
    by blast
  from t e have "(\<exists>p. DAList.lookup (directory store0) (js ''a@x.com'') = Some p \<and>
                 fresh store0 \<le> entry_ref entry_a \<and>
                 set_at store1 (entry_ref entry_a) = set_at store0 (tags_ref (record_at store0 p)) \<and>
                 entry_locale entry_a =
                   (if stored_locale (record_at store0 p) = None \<or> stored_locale (record_at store0 p) = Some []
                    then (if suffix (js ''.ru'') (js ''a@x.com'') then js ''ru'' else js ''en'')
                    else the (stored_locale (record_at store0 p)))) \<and>
            (\<forall>email' p'. DAList.lookup (directory store0) email' = Some p' \<longrightarrow> entry_ref entry_a \<noteq> tags_ref (record_at store0 p'))"
    by blast
  with l have "set_at store1 (entry_ref entry_a) = set_at store0 (tags_ref (record_at store0 0))"
      "entry_ref entry_a \<noteq> tags_ref (record_at store0 0)"
    by auto
  moreover have "entry_locale entry_a = js ''en''"
    by (simp add: entry_a_def)
  ultimately show ?thesis
    using a d l k allocated_store0 lookup_store_store0 by blast
qed

end
